theory Spec2Isabelle
  imports Main
begin

section \<open>The pipe example \<open>foo.cpp\<close> of 18C\_Efficiency\_In\_Spark\<close>

text \<open>
  The program under study is the C++ filter of the section "Piping to External Programs":

  \<^verbatim>\<open>
  double sum_squares(double x, double y) { return x + y*y; };

  int main() {
      string s;
      while (cin) {
          getline(cin, s);
          stringstream stream(s);
          vector<double> v;
          while(1) {
              double u;
              stream >> u;
              if(!stream) break;
              v.push_back(u);
          }
          if (v.size()) {
              double x = accumulate(v.begin(), v.end(), 0.0, sum_squares);
              cout << x << endl;
          }
      }
  }
  \<close>

  It is built with \<^verbatim>\<open>g++ foo.cpp -o foo\<close>. Everything it does goes through the C++
  standard library, so the embedding has two layers: the library operations the program
  calls (\<open>double\<close> arithmetic, \<open>operator>>\<close>, \<open>operator<<\<close>, \<open>getline\<close>, the stream
  state bits), written after ISO C++ and the GNU implementation in the "C" locale, and the
  program itself, written after the source above, loop by loop.
\<close>

subsection \<open>The type \<open>double\<close>: IEEE 754 binary64, round to nearest, ties to even\<close>

text \<open>
  \<open>Finite s m e\<close> is the number \<open>(-1)^s * m * 2^e\<close>; \<open>Infinity s\<close> is the infinity of
  sign \<open>s\<close> (\<open>True\<close> is negative). Arithmetic is that of an x86-64 build: every operation
  is rounded once, to binary64. \<open>round_double s p q\<close> rounds the quotient \<open>p / q\<close>: it finds
  the binary exponent \<open>e\<close> of the quotient, scales by \<open>2^u\<close> with \<open>u = e - 52\<close>, or \<open>-1074\<close> in
  the subnormal range, so that 53 bits or fewer stand before the point, and takes the
  nearest integer, the even one on a tie; a result of \<open>2^1024\<close> or more is an infinity.
\<close>

datatype double = Finite bool nat int | Infinity bool | NaN

fun bits :: "nat \<Rightarrow> nat" where
  "bits n = (if n = 0 then 0 else Suc (bits (n div 2)))"

declare bits.simps [simp del]

definition ratio_ge :: "nat \<Rightarrow> nat \<Rightarrow> nat \<Rightarrow> int \<Rightarrow> bool" where
  \<comment> \<open>\<open>p / q \<ge> b ^ k\<close>, for an exponent of either sign\<close>
  "ratio_ge p q b k = (if 0 \<le> k then q * b ^ nat k \<le> p else q \<le> p * b ^ nat (- k))"

definition rne_div :: "nat \<Rightarrow> nat \<Rightarrow> nat" where
  \<comment> \<open>the integer nearest to \<open>p / q\<close>, a tie going to the even one\<close>
  "rne_div p q =
     (let n = p div q; r = p mod q
      in if 2 * r < q then n
         else if q < 2 * r then n + 1
         else if even n then n else n + 1)"

definition rne_scaled :: "nat \<Rightarrow> nat \<Rightarrow> nat \<Rightarrow> int \<Rightarrow> nat" where
  \<comment> \<open>the integer nearest to \<open>p / (q * b ^ k)\<close>\<close>
  "rne_scaled p q b k =
     (if 0 \<le> k then rne_div p (q * b ^ nat k) else rne_div (p * b ^ nat (- k)) q)"

definition ilog2 :: "nat \<Rightarrow> nat \<Rightarrow> int" where
  \<comment> \<open>\<open>\<lfloor>log2 (p / q)\<rfloor>\<close> for positive \<open>p\<close> and \<open>q\<close>\<close>
  "ilog2 p q =
     (let b = int (bits p) - int (bits q) in if ratio_ge p q 2 b then b else b - 1)"

definition round_double :: "bool \<Rightarrow> nat \<Rightarrow> nat \<Rightarrow> double" where
  \<comment> \<open>the double nearest to \<open>(-1)^s * p / q\<close>; beyond the largest finite double, infinity\<close>
  "round_double s p q =
     (if p = 0 then Finite s 0 0
      else
        let e = ilog2 p q;
            u = max (e - 52) (- 1074);
            n = rne_scaled p q 2 u;
            (n', u') = (if n = 2 ^ 53 then (2 ^ 52, u + 1) else (n, u))
        in if 971 < u' then Infinity s else Finite s n' u')"

definition round_dyadic :: "bool \<Rightarrow> nat \<Rightarrow> int \<Rightarrow> double" where
  "round_dyadic s m e =
     (if 0 \<le> e then round_double s (m * 2 ^ nat e) 1 else round_double s m (2 ^ nat (- e)))"

fun dmul :: "double \<Rightarrow> double \<Rightarrow> double" where
  "dmul NaN y = NaN"
| "dmul x NaN = NaN"
| "dmul (Infinity s) (Infinity t) = Infinity (s \<noteq> t)"
| "dmul (Infinity s) (Finite t n f) = (if n = 0 then NaN else Infinity (s \<noteq> t))"
| "dmul (Finite s m e) (Infinity t) = (if m = 0 then NaN else Infinity (s \<noteq> t))"
| "dmul (Finite s m e) (Finite t n f) = round_dyadic (s \<noteq> t) (m * n) (e + f)"

definition with_sign :: "bool \<Rightarrow> nat \<Rightarrow> int" where
  "with_sign s m = (if s then - int m else int m)"

fun dadd :: "double \<Rightarrow> double \<Rightarrow> double" where
  "dadd NaN y = NaN"
| "dadd x NaN = NaN"
| "dadd (Infinity s) (Infinity t) = (if s = t then Infinity s else NaN)"
| "dadd (Infinity s) (Finite t n f) = Infinity s"
| "dadd (Finite s m e) (Infinity t) = Infinity t"
| "dadd (Finite s m e) (Finite t n f) =
     (let g = min e f;
          c = with_sign s (m * 2 ^ nat (e - g)) + with_sign t (n * 2 ^ nat (f - g))
      in if c = 0 then Finite (s \<and> t) 0 0
         else round_dyadic (c < 0) (nat \<bar>c\<bar>) g)"

definition dzero :: double where
  \<comment> \<open>the literal \<open>0.0\<close>\<close>
  "dzero = Finite False 0 0"

definition sum_squares :: "double \<Rightarrow> double \<Rightarrow> double" where
  "sum_squares x y = dadd x (dmul y y)"

subsection \<open>Characters\<close>

definition isspace :: "char \<Rightarrow> bool" where
  \<comment> \<open>white space of the "C" locale: space, \<open>\t \n \v \f \r\<close>\<close>
  "isspace c = (c \<in> set [CHR 0x20, CHR 0x09, CHR 0x0A, CHR 0x0B, CHR 0x0C, CHR 0x0D])"

definition isdigit :: "char \<Rightarrow> bool" where
  "isdigit c = (c \<in> set ''0123456789'')"

definition digit_val :: "char \<Rightarrow> nat" where
  "digit_val c = of_char c - 48"

definition digits_val :: "string \<Rightarrow> nat" where
  "digits_val ds = foldl (\<lambda>a c. 10 * a + digit_val c) 0 ds"

definition is_sign :: "char \<Rightarrow> bool" where
  "is_sign c = (c = CHR ''+'' \<or> c = CHR ''-'')"

subsection \<open>\<open>strtod\<close> on a decimal field, and the conversion the extractor does with it\<close>

text \<open>
  \<open>strtod\<close> reads an optional sign, digits with an optional point (at least one digit),
  and an exponent part only when \<open>e\<close> is followed by an optional sign and at least one
  digit. It returns the correctly rounded value and the unread rest, or nothing when no
  conversion can be made. The fields the extractor hands over hold no character outside
  \<open>+-0123456789.e\<close>, so the hexadecimal, \<open>inf\<close> and \<open>nan\<close> forms and leading white space
  do not arise and are left out.
\<close>

definition take_sign :: "string \<Rightarrow> bool \<times> string" where
  \<comment> \<open>an optional sign: whether it is \<open>-\<close>, and what follows it\<close>
  "take_sign s =
     (case s of
        c # cs \<Rightarrow> if is_sign c then (c = CHR ''-'', cs) else (False, s)
      | [] \<Rightarrow> (False, s))"

definition fraction_part :: "string \<Rightarrow> string \<times> string" where
  \<comment> \<open>a point and the digits after it, when there is a point\<close>
  "fraction_part s =
     (case s of
        c # cs \<Rightarrow> if c = CHR ''.'' then (takeWhile isdigit cs, dropWhile isdigit cs) else ([], s)
      | [] \<Rightarrow> ([], s))"

definition exponent_part :: "string \<Rightarrow> int \<times> string" where
  \<comment> \<open>\<open>e\<close>, an optional sign and digits; without a digit nothing of it is read\<close>
  "exponent_part s =
     (case s of
        c # cs \<Rightarrow>
          if c = CHR ''e'' \<or> c = CHR ''E'' then
            (let (eneg, s5) = take_sign cs; ed = takeWhile isdigit s5
             in if ed = [] then (0, s)
                else (with_sign eneg (digits_val ed), dropWhile isdigit s5))
          else (0, s)
      | [] \<Rightarrow> (0, s))"

definition decimal :: "bool \<Rightarrow> nat \<Rightarrow> int \<Rightarrow> double" where
  \<comment> \<open>the double nearest to \<open>(-1)^neg * m * 10^k\<close>\<close>
  "decimal neg m k =
     (if 0 \<le> k then round_double neg (m * 10 ^ nat k) 1 else round_double neg m (10 ^ nat (- k)))"

definition strtod :: "string \<Rightarrow> (double \<times> string) option" where
  "strtod str =
     (let (neg, s1) = take_sign str;
          ip = takeWhile isdigit s1;
          (fp, s3) = fraction_part (dropWhile isdigit s1)
      in if ip = [] \<and> fp = [] then None
         else
           let (ex, s4) = exponent_part s3
           in Some (decimal neg (digits_val (ip @ fp)) (ex - int (length fp)), s4))"

definition convert_to_v :: "string \<Rightarrow> double option" where
  \<comment> \<open>fails when \<open>strtod\<close> converts nothing, leaves characters unread, or overflows to \<open>HUGE_VAL\<close>\<close>
  "convert_to_v xtrc =
     (case strtod xtrc of
        None \<Rightarrow> None
      | Some (v, sanity) \<Rightarrow>
          if sanity \<noteq> [] then None
          else (case v of Infinity s \<Rightarrow> None | _ \<Rightarrow> Some v))"

subsection \<open>\<open>num_get\<close>: which characters of the stream make up the field\<close>

text \<open>
  The scan of \<open>num_get::_M_extract_float\<close> in the "C" locale, in its three steps: a sign,
  leading zeros (recorded as a single \<open>0\<close>), then the loop over digits, one point and one
  exponent mark. Each function returns the field collected (\<open>__xtrc\<close>) and the characters
  left in the stream.
\<close>

fun extract_loop :: "bool \<Rightarrow> bool \<Rightarrow> bool \<Rightarrow> string \<Rightarrow> string \<times> string" where
  "extract_loop found_mantissa found_dec found_sci [] = ([], [])"
| "extract_loop found_mantissa found_dec found_sci (c # cs) =
     (if isdigit c then
        (let (x, r) = extract_loop True found_dec found_sci cs in (c # x, r))
      else if c = CHR ''.'' \<and> \<not> found_dec \<and> \<not> found_sci then
        (let (x, r) = extract_loop found_mantissa True found_sci cs in (CHR ''.'' # x, r))
      else if (c = CHR ''e'' \<or> c = CHR ''E'') \<and> \<not> found_sci \<and> found_mantissa then
        (case cs of
           [] \<Rightarrow> (''e'', [])
         | d # ds \<Rightarrow>
             if is_sign d then
               (let (x, r) = extract_loop found_mantissa found_dec True ds
                in (CHR ''e'' # d # x, r))
             else
               (let (x, r) = extract_loop found_mantissa found_dec True cs
                in (CHR ''e'' # x, r)))
      else ([], c # cs))"

definition extract_float :: "string \<Rightarrow> string \<times> string" where
  "extract_float s =
     (let (sg, s1) = (case s of
                        c # cs \<Rightarrow> if is_sign c then ([c], cs) else ([], s)
                      | [] \<Rightarrow> ([], s));
          zs = takeWhile (\<lambda>c. c = CHR ''0'') s1;
          s2 = dropWhile (\<lambda>c. c = CHR ''0'') s1;
          (x, r) = extract_loop (zs \<noteq> []) False False s2
      in (sg @ (if zs \<noteq> [] then ''0'' else []) @ x, r))"

subsection \<open>\<open>stream >> u\<close>\<close>

text \<open>
  The extractor skips white space; at the end of the stream it fails. Otherwise it scans
  a field and converts it. \<open>None\<close> is the failed extraction (\<open>!stream\<close> holds afterwards),
  \<open>Some (u, stream')\<close> the value stored in \<open>u\<close> and the characters left. A stream only
  ever leaves its first failure through \<open>break\<close>, and an extraction that stops at the end
  of the stream sets \<open>eofbit\<close> alone, which makes the next extraction fail just as the
  empty rest does, so the rest of the characters is all the state of \<open>stream\<close> that
  matters.
\<close>

definition extract_double :: "string \<Rightarrow> (double \<times> string) option" where
  "extract_double stream =
     (let s1 = dropWhile isspace stream
      in if s1 = [] then None
         else
           let (xtrc, rest) = extract_float s1
           in (case convert_to_v xtrc of None \<Rightarrow> None | Some u \<Rightarrow> Some (u, rest)))"

subsection \<open>\<open>cout << x\<close>: \<open>printf\<close>'s \<open>%g\<close> with precision 6\<close>

function show_nat :: "nat \<Rightarrow> string" where
  "show_nat n =
     (if n < 10 then [''0123456789'' ! n] else show_nat (n div 10) @ [''0123456789'' ! (n mod 10)])"
  by pat_completeness auto
termination
  by (relation "measure id") auto

declare show_nat.simps [simp del]

definition ilog10 :: "nat \<Rightarrow> nat \<Rightarrow> int" where
  \<comment> \<open>\<open>\<lfloor>log10 (p / q)\<rfloor>\<close> for positive \<open>p\<close> and \<open>q\<close>\<close>
  "ilog10 p q =
     (let b = int (length (show_nat p)) - int (length (show_nat q))
      in if ratio_ge p q 10 b then b else b - 1)"

definition strip_zeros :: "string \<Rightarrow> string" where
  \<comment> \<open>a fraction without its trailing zeros, with its point when something is left\<close>
  "strip_zeros frac =
     (let f = rev (dropWhile (\<lambda>c. c = CHR ''0'') (rev frac))
      in if f = [] then [] else CHR ''.'' # f)"

definition show_exp :: "int \<Rightarrow> string" where
  \<comment> \<open>the exponent of style \<open>e\<close>: a sign and at least two digits\<close>
  "show_exp x =
     (let d = show_nat (nat \<bar>x\<bar>)
      in (if x < 0 then ''-'' else ''+'') @ (if length d < 2 then CHR ''0'' # d else d))"

definition show_g :: "nat \<Rightarrow> nat \<Rightarrow> string" where
  \<comment> \<open>\<open>%g\<close> of the positive number \<open>p / q\<close>\<close>
  "show_g p q =
     (let x0 = ilog10 p q;
          d0 = rne_scaled p q 10 (x0 - 5);
          (d, x) = (if d0 = 10 ^ 6 then (10 ^ 5, x0 + 1) else (d0, x0));
          ds = show_nat d
      in if - 4 \<le> x \<and> x < 6 then
           (if 0 \<le> x then take (nat x + 1) ds @ strip_zeros (drop (nat x + 1) ds)
            else ''0'' @ strip_zeros (replicate (nat (- x - 1)) (CHR ''0'') @ ds))
         else take 1 ds @ strip_zeros (drop 1 ds) @ ''e'' @ show_exp x)"

fun show_double :: "double \<Rightarrow> string" where
  "show_double NaN = ''nan''"
| "show_double (Infinity s) = (if s then ''-inf'' else ''inf'')"
| "show_double (Finite s m e) =
     (if s then ''-'' else []) @
     (if m = 0 then ''0''
      else if 0 \<le> e then show_g (m * 2 ^ nat e) 1 else show_g m (2 ^ nat (- e)))"

subsection \<open>The standard input stream and \<open>getline\<close>\<close>

text \<open>
  \<open>cin\<close> is the characters not yet read and two state bits; \<open>while (cin)\<close> tests
  \<open>!fail()\<close>, that is \<open>failbit\<close> alone (\<open>badbit\<close> is never set here). \<open>getline\<close> first
  builds a sentry: on a stream that is not \<open>good()\<close> the sentry sets \<open>failbit\<close> and the
  string is left as it was. Otherwise the string is erased and characters are moved into
  it up to a newline, which is taken from the stream and dropped, or up to the end of the
  stream, which sets \<open>eofbit\<close>; when not a single character could be taken, newline
  included, \<open>failbit\<close> is set too. This is ISO C++, string.io ("after constructing a
  sentry object, if the sentry converts to true, calls \<open>str.erase()\<close> and then extracts
  characters") and istream.sentry ("if \<open>is.good()\<close> is false, calls
  \<open>is.setstate(failbit)\<close>").
\<close>

record istream =
  buf :: string
  eofbit :: bool
  failbit :: bool

definition newline :: char where
  "newline = CHR 0x0A"

definition good :: "istream \<Rightarrow> bool" where
  "good is = (\<not> eofbit is \<and> \<not> failbit is)"

definition getline :: "istream \<Rightarrow> string \<Rightarrow> istream \<times> string" where
  "getline is str =
     (if \<not> good is then (is\<lparr>failbit := True\<rparr>, str)
      else
        let l = takeWhile (\<lambda>c. c \<noteq> newline) (buf is);
            r = dropWhile (\<lambda>c. c \<noteq> newline) (buf is)
        in (case r of
              d # rest \<Rightarrow> (is\<lparr>buf := rest\<rparr>, l)
            | [] \<Rightarrow> (is\<lparr>buf := [], eofbit := True, failbit := (l = [])\<rparr>, l)))"

subsection \<open>The inner loop\<close>

text \<open>
  \<open>while(1)\<close>: extract, leave at the first failure, else push the value. The loop ends
  because an extraction that succeeds takes at least one character off the stream.
\<close>

declare extract_loop.simps [simp del]

lemma extract_loop_lengths:
  "extract_loop fm fd fs s = (x, r) \<Longrightarrow> length x + length r = length s"
proof (induction fm fd fs s arbitrary: x r rule: extract_loop.induct)
  case (1 fm fd fs)
  then show ?case by (simp add: extract_loop.simps)
next
  case (2 fm fd fs c cs)
  note E = "2.prems" [unfolded extract_loop.simps(2)]
  show ?case
  proof (cases "isdigit c")
    case True
    with "2.IH" E show ?thesis by (auto split: prod.splits)
  next
    case nd: False
    show ?thesis
    proof (cases "c = CHR ''.'' \<and> \<not> fd \<and> \<not> fs")
      case True
      with nd "2.IH" E show ?thesis by (auto split: prod.splits)
    next
      case np: False
      show ?thesis
      proof (cases "(c = CHR ''e'' \<or> c = CHR ''E'') \<and> \<not> fs \<and> fm")
        case False
        with nd np E show ?thesis by auto
      next
        case True
        show ?thesis
        proof (cases cs)
          case Nil
          with nd np True E show ?thesis by auto
        next
          case (Cons d ds)
          show ?thesis
          proof (cases "is_sign d")
            case sg: True
            obtain y q where yq: "extract_loop fm fd True ds = (y, q)"
              by (cases "extract_loop fm fd True ds")
            from "2.IH"(3) [OF nd np True Cons sg yq] have "length y + length q = length ds" .
            with nd np True Cons sg yq E show ?thesis by auto
          next
            case sg: False
            obtain y q where yq: "extract_loop fm fd True cs = (y, q)"
              by (cases "extract_loop fm fd True cs")
            from "2.IH"(4) [OF nd np True Cons sg yq] have "length y + length q = length cs" .
            with nd np True Cons sg yq E show ?thesis by auto
          qed
        qed
      qed
    qed
  qed
qed

lemma extract_loop_length: "length (snd (extract_loop fm fd fs s)) \<le> length s"
  using extract_loop_lengths [of fm fd fs s] by (cases "extract_loop fm fd fs s") auto

lemma extract_loop_consumes:
  "fst (extract_loop fm fd fs s) \<noteq> [] \<Longrightarrow> length (snd (extract_loop fm fd fs s)) < length s"
  using extract_loop_lengths [of fm fd fs s]
  by (cases "extract_loop fm fd fs s") (auto simp: neq_Nil_conv)

lemma extract_float_consumes:
  assumes "fst (extract_float s) \<noteq> []"
  shows "length (snd (extract_float s)) < length s"
proof -
  define t where "t = (case s of c # cs \<Rightarrow> if is_sign c then cs else s | [] \<Rightarrow> s)"
  define zs where "zs = takeWhile (\<lambda>c. c = CHR ''0'') t"
  define s2 where "s2 = dropWhile (\<lambda>c. c = CHR ''0'') t"
  have r: "snd (extract_float s) = snd (extract_loop (zs \<noteq> []) False False s2)"
    by (auto simp: extract_float_def t_def s2_def zs_def Let_def split: list.splits prod.splits)
  have x: "t = s \<Longrightarrow> zs = [] \<Longrightarrow> fst (extract_float s) = fst (extract_loop (zs \<noteq> []) False False s2)"
    by (auto simp: extract_float_def t_def s2_def zs_def Let_def split: list.splits prod.splits if_splits)
  have z: "length zs + length s2 = length t"
    unfolding zs_def s2_def by (metis length_append takeWhile_dropWhile_id)
  have t: "length t \<le> length s" "t \<noteq> s \<Longrightarrow> length t < length s"
    by (auto simp: t_def split: list.splits if_splits)
  have l: "length (snd (extract_loop (zs \<noteq> []) False False s2)) \<le> length s2"
    by (rule extract_loop_length)
  show ?thesis
  proof (cases "t = s \<and> zs = []")
    case True
    with x assms have "fst (extract_loop (zs \<noteq> []) False False s2) \<noteq> []" by simp
    from extract_loop_consumes [OF this] z t r show ?thesis by simp
  next
    case False
    then have "length s2 < length s" using z t by (cases "t = s") (auto simp: neq_Nil_conv)
    with l r show ?thesis by simp
  qed
qed

lemma strtod_Nil: "strtod [] = None"
  by (simp add: strtod_def take_sign_def fraction_part_def)

lemma extract_double_shorter:
  assumes "extract_double stream = Some (u, stream')"
  shows "length stream' < length stream"
proof -
  define s1 where "s1 = dropWhile isspace stream"
  from assms have cv: "convert_to_v (fst (extract_float s1)) \<noteq> None"
    and r: "stream' = snd (extract_float s1)"
    by (auto simp: extract_double_def s1_def [symmetric] Let_def
             split: if_splits option.splits prod.splits)
  from cv have "fst (extract_float s1) \<noteq> []"
    by (auto simp: convert_to_v_def strtod_Nil)
  then have "length stream' < length s1"
    unfolding r by (rule extract_float_consumes)
  moreover have "length s1 \<le> length stream"
    by (simp add: s1_def length_dropWhile_le)
  ultimately show ?thesis by simp
qed

function read_numbers :: "string \<Rightarrow> double list \<Rightarrow> double list" where
  "read_numbers stream v =
     (case extract_double stream of
        None \<Rightarrow> v
      | Some (u, stream') \<Rightarrow> read_numbers stream' (v @ [u]))"
  by pat_completeness auto
termination
  by (relation "measure (\<lambda>(stream, v). length stream)") (auto dest: extract_double_shorter)

declare read_numbers.simps [simp del]

subsection \<open>The body of the outer loop, and \<open>main\<close>\<close>

primrec accumulate :: "'a list \<Rightarrow> 'b \<Rightarrow> ('b \<Rightarrow> 'a \<Rightarrow> 'b) \<Rightarrow> 'b" where
  "accumulate [] init binary_op = init"
| "accumulate (x # xs) init binary_op = accumulate xs (binary_op init x) binary_op"

text \<open>
  \<open>process_line s\<close> is the part of the body after \<open>getline\<close>, from the construction of
  \<open>stream\<close> to the \<open>if\<close>: the lines it sends to \<open>cout\<close>, each by one \<open>cout << x << endl\<close>.
  \<open>cout\<close> is the list of the lines written so far; the bytes on standard output are
  \<open>stdout_bytes\<close> of it.
\<close>

definition process_line :: "string \<Rightarrow> string list" where
  "process_line s =
     (let v = read_numbers s []
      in if length v \<noteq> 0 then [show_double (accumulate v dzero sum_squares)] else [])"

record state =
  cin :: istream
  str :: string
  cout :: "string list"

definition body :: "state \<Rightarrow> state" where
  "body st =
     (let (cin', s) = getline (cin st) (str st)
      in \<lparr>cin = cin', str = s, cout = cout st @ process_line s\<rparr>)"

text \<open>
  The outer loop \<open>while (cin)\<close> is not bounded by anything in its text, so it is a partial
  function: \<open>None\<close> would be a run that never leaves the loop.
\<close>

partial_function (option) main_loop :: "state \<Rightarrow> state option" where
  "main_loop st = (if failbit (cin st) then Some st else main_loop (body st))"

definition initial :: "string \<Rightarrow> state" where
  \<comment> \<open>the state at the first test of \<open>while (cin)\<close>: \<open>string s;\<close> is empty\<close>
  "initial input =
     \<lparr>cin = \<lparr>buf = input, eofbit = False, failbit = False\<rparr>, str = [], cout = []\<rparr>"

definition main :: "string \<Rightarrow> (string list \<times> int) option" where
  \<comment> \<open>the lines written and the exit status: control reaches the end of \<open>main\<close>, which returns 0\<close>
  "main input = map_option (\<lambda>st. (cout st, 0)) (main_loop (initial input))"

definition stdout_bytes :: "string list \<Rightarrow> string" where
  "stdout_bytes ls = concat (map (\<lambda>l. l @ [newline]) ls)"

section \<open>What \<open>main\<close> writes, for every input\<close>

text \<open>
  The lines of an input are its maximal runs of characters other than newline, each ended
  by a newline or, for the last one, by the end of the input. An input is \<open>terminated\<close>
  when it is empty or ends with a newline.
\<close>

fun input_lines :: "string \<Rightarrow> string list" where
  "input_lines [] = []"
| "input_lines (c # cs) =
     (if c = newline then [] # input_lines cs
      else (case input_lines cs of [] \<Rightarrow> [[c]] | l # ls \<Rightarrow> (c # l) # ls))"

definition terminated :: "string \<Rightarrow> bool" where
  "terminated input = (input = [] \<or> last input = newline)"

lemma input_lines_Nil_iff: "input_lines b = [] \<longleftrightarrow> b = []"
  by (cases b) (auto split: list.splits)

lemma input_lines_line:
  "newline \<notin> set l \<Longrightarrow> input_lines (l @ newline # rest) = l # input_lines rest"
  by (induction l) auto

lemma input_lines_last:
  "newline \<notin> set l \<Longrightarrow> l \<noteq> [] \<Longrightarrow> input_lines l = [l]"
proof (induction l)
  case Nil
  then show ?case by simp
next
  case (Cons c cs)
  then show ?case by (cases "cs = []") auto
qed

lemma split_at_newline:
  "dropWhile (\<lambda>c. c \<noteq> newline) b = d # rest \<Longrightarrow>
     b = takeWhile (\<lambda>c. c \<noteq> newline) b @ newline # rest"
  by (metis (mono_tags, lifting) hd_dropWhile list.sel(1) list.simps(3) takeWhile_dropWhile_id)

definition last_line :: "string \<Rightarrow> string" where
  "last_line input = (if terminated input then [] else last (input_lines input))"

definition outputs :: "string \<Rightarrow> string list" where
  "outputs input = concat (map process_line (input_lines input)) @ process_line (last_line input)"

lemma extract_double_Nil: "extract_double [] = None"
  by (simp add: extract_double_def)

lemma process_line_Nil: "process_line [] = []"
  by (simp add: process_line_def read_numbers.simps extract_double_Nil)

lemma no_newline_takeWhile: "newline \<notin> set (takeWhile (\<lambda>c. c \<noteq> newline) b)"
  by (auto dest: set_takeWhileD)

lemma terminated_line:
  "terminated (l @ newline # rest) \<longleftrightarrow> terminated rest"
  by (auto simp: terminated_def)

lemma last_line_line:
  "newline \<notin> set l \<Longrightarrow> last_line (l @ newline # rest) = last_line rest"
  by (auto simp: last_line_def terminated_line input_lines_line input_lines_Nil_iff terminated_def)

lemma outputs_line:
  "newline \<notin> set l \<Longrightarrow> outputs (l @ newline # rest) = process_line l @ outputs rest"
  by (simp add: outputs_def input_lines_line last_line_line)

lemma outputs_Nil: "outputs [] = []"
  by (simp add: outputs_def last_line_def terminated_def process_line_Nil)

lemma not_terminated: "newline \<notin> set l \<Longrightarrow> l \<noteq> [] \<Longrightarrow> \<not> terminated l"
  unfolding terminated_def by (metis last_in_set)

lemma last_line_last:
  "newline \<notin> set l \<Longrightarrow> l \<noteq> [] \<Longrightarrow> last_line l = l"
  by (simp add: input_lines_last last_line_def not_terminated)

lemma outputs_last:
  "newline \<notin> set l \<Longrightarrow> l \<noteq> [] \<Longrightarrow> outputs l = process_line l @ process_line l"
  by (simp add: outputs_def input_lines_last last_line_last)

lemma main_loop_good:
  "main_loop \<lparr>cin = \<lparr>buf = b, eofbit = False, failbit = False\<rparr>, str = s, cout = out\<rparr> =
     Some \<lparr>cin = \<lparr>buf = [], eofbit = True, failbit = True\<rparr>, str = last_line b,
           cout = out @ outputs b\<rparr>"
proof (induction "length b" arbitrary: b s out rule: less_induct)
  case less
  define l where "l = takeWhile (\<lambda>c. c \<noteq> newline) b"
  define r where "r = dropWhile (\<lambda>c. c \<noteq> newline) b"
  have nl: "newline \<notin> set l" unfolding l_def by (rule no_newline_takeWhile)
  show ?case
  proof (cases r)
    case (Cons d rest)
    then have b: "b = l @ newline # rest"
      unfolding l_def r_def by (rule split_at_newline)
    have step: "body \<lparr>cin = \<lparr>buf = b, eofbit = False, failbit = False\<rparr>, str = s, cout = out\<rparr> =
        \<lparr>cin = \<lparr>buf = rest, eofbit = False, failbit = False\<rparr>, str = l, cout = out @ process_line l\<rparr>"
      using Cons by (simp add: body_def getline_def good_def l_def [symmetric] r_def [symmetric])
    have "length rest < length b" by (simp add: b)
    from less [OF this] show ?thesis
      by (subst main_loop.simps) (simp add: step, simp add: b outputs_line [OF nl] last_line_line [OF nl])
  next
    case Nil
    then have bl: "b = l"
      unfolding l_def r_def by (metis append_Nil2 takeWhile_dropWhile_id)
    show ?thesis
    proof (cases "l = []")
      case True
      have step: "body \<lparr>cin = \<lparr>buf = b, eofbit = False, failbit = False\<rparr>, str = s, cout = out\<rparr> =
          \<lparr>cin = \<lparr>buf = [], eofbit = True, failbit = True\<rparr>, str = [], cout = out\<rparr>"
        using Nil True
        by (simp add: body_def getline_def good_def l_def [symmetric] r_def [symmetric] process_line_Nil)
      show ?thesis
        apply (subst main_loop.simps)
        apply (simp add: step)
        apply (subst main_loop.simps)
        using True bl apply (simp add: outputs_Nil last_line_def terminated_def)
        done
    next
      case False
      have step1: "body \<lparr>cin = \<lparr>buf = b, eofbit = False, failbit = False\<rparr>, str = s, cout = out\<rparr> =
          \<lparr>cin = \<lparr>buf = [], eofbit = True, failbit = False\<rparr>, str = l, cout = out @ process_line l\<rparr>"
        using Nil False
        by (simp add: body_def getline_def good_def l_def [symmetric] r_def [symmetric])
      have step2: "body \<lparr>cin = \<lparr>buf = [], eofbit = True, failbit = False\<rparr>, str = l, cout = out @ process_line l\<rparr> =
          \<lparr>cin = \<lparr>buf = [], eofbit = True, failbit = True\<rparr>, str = l,
           cout = out @ process_line l @ process_line l\<rparr>"
        by (simp add: body_def getline_def good_def)
      show ?thesis
        apply (subst main_loop.simps)
        apply (simp add: step1)
        apply (subst main_loop.simps)
        apply (simp add: step2)
        apply (subst main_loop.simps)
        using False nl apply (simp add: bl [symmetric] outputs_last last_line_last)
        done
    qed
  qed
qed

lemma main_eq: "main input = Some (outputs input, 0)"
  by (simp add: main_def initial_def main_loop_good)

section \<open>Tokens\<close>

text \<open>
  The program never splits a line into tokens: it extracts from the stream. To compare it
  with a description by tokens, \<open>tokenize\<close> cuts a line at its white space, and
  \<open>number_of t\<close> is the value of a token that the extractor converts as a whole, with
  nothing left over. A \<open>boundary\<close> is what follows a token: the end of the line or a
  white-space character.
\<close>

lemma tokenize_shorter:
  assumes "dropWhile isspace s \<noteq> []"
  shows "length (dropWhile (\<lambda>c. \<not> isspace c) (dropWhile isspace s)) < length s"
proof -
  define s1 where "s1 = dropWhile isspace s"
  from assms obtain c cs where c: "s1 = c # cs" by (cases s1) (auto simp: s1_def)
  then have "\<not> isspace c"
    unfolding s1_def by (metis hd_dropWhile list.sel(1) list.simps(3))
  with c have "length (dropWhile (\<lambda>c. \<not> isspace c) s1) \<le> length cs"
    by (simp add: length_dropWhile_le)
  moreover have "length s1 \<le> length s" by (simp add: s1_def length_dropWhile_le)
  ultimately show ?thesis using c by (simp add: s1_def [symmetric])
qed

function tokenize :: "string \<Rightarrow> string list" where
  "tokenize s =
     (let s1 = dropWhile isspace s
      in if s1 = [] then []
         else takeWhile (\<lambda>c. \<not> isspace c) s1 # tokenize (dropWhile (\<lambda>c. \<not> isspace c) s1))"
  by pat_completeness auto
termination
  by (relation "measure length") (auto intro: tokenize_shorter)

declare tokenize.simps [simp del]

definition number_of :: "string \<Rightarrow> double option" where
  "number_of t = (case extract_double t of Some (u, []) \<Rightarrow> Some u | _ \<Rightarrow> None)"

definition boundary :: "string \<Rightarrow> bool" where
  "boundary r = (case r of [] \<Rightarrow> True | c # cs \<Rightarrow> isspace c)"

lemma space_not_field:
  assumes "isspace c"
  shows "\<not> isdigit c" "c \<noteq> CHR ''.''" "c \<noteq> CHR ''e''" "c \<noteq> CHR ''E''" "\<not> is_sign c"
    "c \<noteq> CHR ''0''"
  using assms by (auto simp: isspace_def isdigit_def is_sign_def)

lemma extract_loop_digit:
  "isdigit c \<Longrightarrow> extract_loop fm fd fs (c # cs) =
     (c # fst (extract_loop True fd fs cs), snd (extract_loop True fd fs cs))"
  by (simp add: extract_loop.simps case_prod_unfold Let_def)

lemma extract_loop_point:
  "\<not> fd \<Longrightarrow> \<not> fs \<Longrightarrow> extract_loop fm fd fs (CHR ''.'' # cs) =
     (CHR ''.'' # fst (extract_loop fm True fs cs), snd (extract_loop fm True fs cs))"
  by (simp add: extract_loop.simps case_prod_unfold isdigit_def Let_def)

lemma exp_mark_not_digit: "c = CHR ''e'' \<or> c = CHR ''E'' \<Longrightarrow> \<not> isdigit c \<and> c \<noteq> CHR ''.''"
  by (auto simp: isdigit_def)

lemma extract_loop_exp_end:
  "c = CHR ''e'' \<or> c = CHR ''E'' \<Longrightarrow> \<not> fs \<Longrightarrow> fm \<Longrightarrow> extract_loop fm fd fs [c] = (''e'', [])"
  using exp_mark_not_digit [of c] by (simp add: extract_loop.simps)

lemma extract_loop_exp_sign:
  "c = CHR ''e'' \<or> c = CHR ''E'' \<Longrightarrow> \<not> fs \<Longrightarrow> fm \<Longrightarrow> is_sign d \<Longrightarrow>
     extract_loop fm fd fs (c # d # ds) =
       (CHR ''e'' # d # fst (extract_loop fm fd True ds), snd (extract_loop fm fd True ds))"
  using exp_mark_not_digit [of c]
  by (subst extract_loop.simps(2)) (simp add: case_prod_unfold Let_def)

lemma extract_loop_exp_nosign:
  "c = CHR ''e'' \<or> c = CHR ''E'' \<Longrightarrow> \<not> fs \<Longrightarrow> fm \<Longrightarrow> \<not> is_sign d \<Longrightarrow>
     extract_loop fm fd fs (c # d # ds) =
       (CHR ''e'' # fst (extract_loop fm fd True (d # ds)), snd (extract_loop fm fd True (d # ds)))"
  using exp_mark_not_digit [of c]
  by (subst extract_loop.simps(2)) (simp add: case_prod_unfold Let_def)

lemma extract_loop_stop:
  "\<not> isdigit c \<Longrightarrow> \<not> (c = CHR ''.'' \<and> \<not> fd \<and> \<not> fs) \<Longrightarrow>
   \<not> ((c = CHR ''e'' \<or> c = CHR ''E'') \<and> \<not> fs \<and> fm) \<Longrightarrow>
     extract_loop fm fd fs (c # cs) = ([], c # cs)"
  by (subst extract_loop.simps(2)) (simp only: if_False)

lemma extract_loop_boundary: "boundary r \<Longrightarrow> extract_loop fm fd fs r = ([], r)"
proof (cases r)
  case Nil
  then show ?thesis by (simp add: extract_loop.simps)
next
  case (Cons c cs)
  assume "boundary r"
  with Cons have "isspace c" by (simp add: boundary_def)
  with Cons show ?thesis by (simp add: extract_loop_stop space_not_field)
qed

lemma extract_loop_append:
  assumes "boundary r"
  shows "extract_loop fm fd fs (t @ r) =
           (fst (extract_loop fm fd fs t), snd (extract_loop fm fd fs t) @ r)"
proof (induction fm fd fs t rule: extract_loop.induct)
  case (1 fm fd fs)
  with assms show ?case by (simp add: extract_loop_boundary extract_loop.simps)
next
  case (2 fm fd fs c cs)
  show ?case
  proof (cases "isdigit c")
    case True
    with "2.IH"(1) show ?thesis by (simp add: extract_loop_digit)
  next
    case nd: False
    show ?thesis
    proof (cases "c = CHR ''.'' \<and> \<not> fd \<and> \<not> fs")
      case True
      with nd "2.IH"(2) show ?thesis by (simp add: extract_loop_point)
    next
      case np: False
      show ?thesis
      proof (cases "(c = CHR ''e'' \<or> c = CHR ''E'') \<and> \<not> fs \<and> fm")
        case False
        with nd np show ?thesis by (simp add: extract_loop_stop)
      next
        case True
        then have e: "c = CHR ''e'' \<or> c = CHR ''E''" and fs: "\<not> fs" and fm: fm by auto
        show ?thesis
        proof (cases cs)
          case Nil
          have "extract_loop fm fd fs (c # r) = (''e'', r)"
          proof (cases r)
            case Nil
            with e fs fm show ?thesis by (simp add: extract_loop_exp_end)
          next
            case (Cons d ds)
            with assms have "isspace d" by (simp add: boundary_def)
            then have "\<not> is_sign d" by (rule space_not_field)
            from extract_loop_exp_nosign [OF e fs fm this, of fd ds]
            show ?thesis using extract_loop_boundary [OF assms, of fm fd True] Cons by simp
          qed
          with Nil e fs fm show ?thesis by (simp add: extract_loop_exp_end)
        next
          case (Cons d ds)
          show ?thesis
          proof (cases "is_sign d")
            case sg: True
            from "2.IH"(3) [OF nd np True Cons sg]
            show ?thesis using Cons by (simp add: extract_loop_exp_sign [OF e fs fm sg])
          next
            case sg: False
            from "2.IH"(4) [OF nd np True Cons sg]
            show ?thesis using Cons by (simp add: extract_loop_exp_nosign [OF e fs fm sg])
          qed
        qed
      qed
    qed
  qed
qed


lemma While_append_boundary:
  assumes "\<And>c. isspace c \<Longrightarrow> \<not> P c" "boundary r"
  shows "takeWhile P (t @ r) = takeWhile P t" "dropWhile P (t @ r) = dropWhile P t @ r"
proof -
  have r: "takeWhile P r = []" "dropWhile P r = r"
    using assms by (cases r; simp add: boundary_def)+
  show "takeWhile P (t @ r) = takeWhile P t" "dropWhile P (t @ r) = dropWhile P t @ r"
    using r by (induction t) auto
qed

lemma extract_float_append:
  assumes "boundary r"
  shows "extract_float (t @ r) = (fst (extract_float t), snd (extract_float t) @ r)"
proof -
  have z: "takeWhile (\<lambda>c. c = CHR ''0'') (u @ r) = takeWhile (\<lambda>c. c = CHR ''0'') u"
    "dropWhile (\<lambda>c. c = CHR ''0'') (u @ r) = dropWhile (\<lambda>c. c = CHR ''0'') u @ r" for u
    using While_append_boundary [OF _ assms, of "\<lambda>c. c = CHR ''0''" u]
    by (auto simp: space_not_field)
  have sg: "(case u @ r of c # cs \<Rightarrow> if is_sign c then ([c], cs) else ([], u @ r) | [] \<Rightarrow> ([], u @ r)) =
      (fst (case u of c # cs \<Rightarrow> if is_sign c then ([c], cs) else ([], u) | [] \<Rightarrow> ([], u)),
       snd (case u of c # cs \<Rightarrow> if is_sign c then ([c], cs) else ([], u) | [] \<Rightarrow> ([], u)) @ r)" for u
    using assms by (cases u; cases r) (auto simp: boundary_def space_not_field)
  show ?thesis
    unfolding extract_float_def sg [of t]
    by (simp add: Let_def case_prod_unfold z extract_loop_append [OF assms])
qed

lemma extract_double_token:
  assumes "dropWhile isspace s \<noteq> []"
  shows "extract_double s =
           map_option (\<lambda>(u, r'). (u, r' @ dropWhile (\<lambda>c. \<not> isspace c) (dropWhile isspace s)))
             (extract_double (takeWhile (\<lambda>c. \<not> isspace c) (dropWhile isspace s)))"
proof -
  define s1 where "s1 = dropWhile isspace s"
  define t where "t = takeWhile (\<lambda>c. \<not> isspace c) s1"
  define r where "r = dropWhile (\<lambda>c. \<not> isspace c) s1"
  have s1: "s1 = t @ r" by (simp add: t_def r_def)
  have br: "boundary r"
  proof (cases r)
    case Nil
    then show ?thesis by (simp add: boundary_def)
  next
    case (Cons c cs)
    then have "\<not> \<not> isspace c"
      unfolding r_def by (metis (mono_tags, lifting) hd_dropWhile list.sel(1) list.simps(3))
    with Cons show ?thesis by (simp add: boundary_def)
  qed
  from assms obtain c cs where c: "s1 = c # cs" by (cases s1) (auto simp: s1_def)
  then have nsp: "\<not> isspace c"
    unfolding s1_def by (metis hd_dropWhile list.sel(1) list.simps(3))
  with c have t: "t = c # takeWhile (\<lambda>c. \<not> isspace c) cs" by (simp add: t_def)
  with nsp have dt: "dropWhile isspace t = t" by simp
  from t have tn: "t \<noteq> []" by simp
  have "extract_double s =
      (case convert_to_v (fst (extract_float t)) of
         None \<Rightarrow> None | Some u \<Rightarrow> Some (u, snd (extract_float t) @ r))"
    using assms
    by (simp add: extract_double_def s1_def [symmetric] s1 extract_float_append [OF br] tn)
  moreover have "extract_double t =
      (case convert_to_v (fst (extract_float t)) of
         None \<Rightarrow> None | Some u \<Rightarrow> Some (u, snd (extract_float t)))"
    using tn by (simp add: extract_double_def dt case_prod_unfold Let_def)
  ultimately show ?thesis
    by (simp add: s1_def [symmetric] t_def [symmetric] r_def [symmetric] split: option.splits)
qed

lemma extract_double_spaces: "dropWhile isspace s = [] \<Longrightarrow> extract_double s = None"
  by (simp add: extract_double_def)

lemma number_of_Some: "number_of t = Some u \<longleftrightarrow> extract_double t = Some (u, [])"
  by (auto simp: number_of_def split: option.splits list.splits)

lemma read_numbers_tokens:
  assumes "tokenize s = ts @ rest" "map number_of ts = map Some vs"
    and "rest = [] \<or> extract_double (hd rest) = None"
  shows "read_numbers s v = v @ vs"
  using assms
proof (induction s arbitrary: ts vs v rule: tokenize.induct)
  case (1 s)
  define s1 where "s1 = dropWhile isspace s"
  define t where "t = takeWhile (\<lambda>c. \<not> isspace c) s1"
  define r where "r = dropWhile (\<lambda>c. \<not> isspace c) s1"
  show ?case
  proof (cases "s1 = []")
    case True
    then have "tokenize s = []" by (subst tokenize.simps) (simp add: s1_def)
    with "1.prems" have "vs = []" by simp
    moreover have "extract_double s = None"
      using True by (simp add: extract_double_spaces s1_def)
    ultimately show ?thesis by (subst read_numbers.simps) simp
  next
    case False
    then have tk: "tokenize s = t # tokenize r"
      by (subst tokenize.simps) (simp add: s1_def t_def r_def Let_def)
    have ed: "extract_double s = map_option (\<lambda>(u, r'). (u, r' @ r)) (extract_double t)"
      using extract_double_token [of s] False by (simp add: s1_def t_def r_def)
    show ?thesis
    proof (cases ts)
      case Nil
      with "1.prems" tk have "extract_double t = None" "vs = []" by auto
      with ed show ?thesis by (subst read_numbers.simps) simp
    next
      case (Cons t' ts')
      with "1.prems"(1) tk have t': "t' = t" and r: "tokenize r = ts' @ rest" by auto
      from "1.prems"(2) Cons obtain u vs' where vs: "vs = u # vs'"
        and u: "number_of t' = Some u" and m: "map number_of ts' = map Some vs'"
        by (cases vs) auto
      from u t' have "extract_double t = Some (u, [])" by (simp add: number_of_Some)
      with ed have e: "extract_double s = Some (u, r)" by simp
      have ne: "dropWhile isspace s \<noteq> []" using False by (simp add: s1_def)
      from "1.IH" [OF refl ne r [unfolded r_def s1_def] m "1.prems"(3)]
      have "read_numbers r (v @ [u]) = (v @ [u]) @ vs'" by (simp add: r_def s1_def)
      with e vs show ?thesis by (subst read_numbers.simps) simp
    qed
  qed
qed

lemma accumulate_foldl: "accumulate xs init f = foldl f init xs"
  by (induction xs arbitrary: init) auto



section \<open>Decimal numbers\<close>

text \<open>
  A token is a decimal number when \<open>strtod\<close> reads all of it: an optional sign, digits with
  an optional point, an optional exponent (\<open>strtod_shape\<close> and \<open>strtod_of_shape\<close> give the
  two directions); \<open>decimal_token\<close> is then its value. The value is \<open>in_range\<close> unless the
  number is too large for a \<open>double\<close>, in which case \<open>strtod\<close> returns an infinity. The
  extractor converts every decimal token in range whole, to the value \<open>strtod\<close> gives it,
  although it hands \<open>strtod\<close> a rewritten field (leading zeros as one \<open>0\<close>, the exponent
  mark as \<open>e\<close>). The parts of such a token are its sign \<open>sg\<close>, integer digits \<open>ip\<close>, point
  \<open>dot\<close>, fraction digits \<open>fp\<close> and exponent \<open>ex\<close>.
\<close>

definition decimal_token :: "string \<Rightarrow> double option" where
  "decimal_token t = (case strtod t of Some (v, []) \<Rightarrow> Some v | _ \<Rightarrow> None)"

definition in_range :: "double \<Rightarrow> bool" where
  "in_range v = (case v of Infinity s \<Rightarrow> False | _ \<Rightarrow> True)"

lemma While_digits:
  assumes "list_all isdigit ds" and "r = [] \<or> \<not> isdigit (hd r)"
  shows "takeWhile isdigit (ds @ r) = ds" "dropWhile isdigit (ds @ r) = r"
proof -
  from assms(2) have r: "takeWhile isdigit r = []" "dropWhile isdigit r = r"
    by (cases r; auto)+
  from assms(1) show "takeWhile isdigit (ds @ r) = ds" "dropWhile isdigit (ds @ r) = r"
    by (induction ds) (auto simp: r)
qed

definition opt_sign :: "string \<Rightarrow> bool" where
  "opt_sign sg = (case sg of [] \<Rightarrow> True | g # gs \<Rightarrow> is_sign g \<and> gs = [])"

definition exp_mark :: "char \<Rightarrow> bool" where
  "exp_mark c = (c = CHR ''e'' \<or> c = CHR ''E'')"

lemma sign_not_digit: "is_sign c \<Longrightarrow> \<not> isdigit c"
  by (auto simp: is_sign_def isdigit_def)

lemma take_sign_append:
  assumes "opt_sign sg" and "r = [] \<or> \<not> is_sign (hd r)"
  shows "take_sign (sg @ r) = (sg = ''-'', r)"
proof (cases sg)
  case Nil
  with assms(2) show ?thesis by (cases r) (auto simp: take_sign_def)
next
  case (Cons g gs)
  with assms(1) show ?thesis by (auto simp: take_sign_def opt_sign_def)
qed

lemma take_sign_split:
  obtains sg where "opt_sign sg" "s = sg @ snd (take_sign s)" "fst (take_sign s) = (sg = ''-'')"
    "sg = [] \<longrightarrow> s = [] \<or> \<not> is_sign (hd s)"
proof (cases s)
  case Nil
  show ?thesis by (rule that [of "[]"]) (simp_all add: Nil opt_sign_def take_sign_def)
next
  case (Cons c cs)
  show ?thesis
  proof (cases "is_sign c")
    case True
    show ?thesis by (rule that [of "[c]"]) (simp_all add: Cons True opt_sign_def take_sign_def)
  next
    case False
    show ?thesis by (rule that [of "[]"]) (simp_all add: Cons False opt_sign_def take_sign_def)
  qed
qed


lemma While_append_stop:
  assumes "r = [] \<or> \<not> P (hd r)"
  shows "takeWhile P (t @ r) = takeWhile P t" "dropWhile P (t @ r) = dropWhile P t @ r"
proof -
  from assms have r: "takeWhile P r = []" "dropWhile P r = r"
    by (cases r; auto)+
  show "takeWhile P (t @ r) = takeWhile P t" "dropWhile P (t @ r) = dropWhile P t @ r"
    using r by (induction t) auto
qed

lemma extract_loop_digits:
  "list_all isdigit ds \<Longrightarrow>
     extract_loop fm fd fs (ds @ r) =
       (ds @ fst (extract_loop (fm \<or> ds \<noteq> []) fd fs r), snd (extract_loop (fm \<or> ds \<noteq> []) fd fs r))"
  by (induction ds arbitrary: fm) (simp_all add: extract_loop_digit)

definition exp_shape :: "string \<Rightarrow> bool" where
  "exp_shape ex =
     (case ex of
        [] \<Rightarrow> True
      | c # cs \<Rightarrow> exp_mark c \<and> snd (take_sign cs) \<noteq> [] \<and> list_all isdigit (snd (take_sign cs)))"

definition exp_field :: "string \<Rightarrow> string" where
  "exp_field ex = (case ex of [] \<Rightarrow> [] | c # cs \<Rightarrow> CHR ''e'' # cs)"

lemma takeWhile_all: "list_all P xs \<Longrightarrow> takeWhile P xs = xs \<and> dropWhile P xs = []"
  by (induction xs) auto

lemma exponent_part_shape: "exp_shape ex \<Longrightarrow> snd (exponent_part ex) = []"
  by (cases ex)
     (auto simp: exp_shape_def exponent_part_def exp_mark_def Let_def takeWhile_all list_all_iff
           split: prod.splits)

lemma exponent_part_field: "exp_shape ex \<Longrightarrow> exponent_part (exp_field ex) = exponent_part ex"
  by (cases ex)
     (auto simp: exp_shape_def exp_field_def exponent_part_def exp_mark_def Let_def takeWhile_all
                 list_all_iff
           split: prod.splits)

lemma exp_shape_field: "exp_shape ex \<Longrightarrow> exp_shape (exp_field ex)"
  by (cases ex) (auto simp: exp_shape_def exp_field_def exp_mark_def)

lemma exp_shape_hd:
  "exp_shape ex \<Longrightarrow> ex = [] \<or> (\<not> isdigit (hd ex) \<and> hd ex \<noteq> CHR ''.'' \<and> hd ex \<noteq> CHR ''0'' \<and> \<not> is_sign (hd ex))"
  by (cases ex) (auto simp: exp_shape_def exp_mark_def isdigit_def is_sign_def)

lemma extract_loop_exp_shape:
  assumes "exp_shape ex"
  shows "extract_loop True fd False ex = (exp_field ex, [])"
proof (cases ex)
  case Nil
  then show ?thesis by (simp add: extract_loop.simps exp_field_def)
next
  case (Cons c cs)
  with assms have c: "c = CHR ''e'' \<or> c = CHR ''E''"
    and ne: "snd (take_sign cs) \<noteq> []" and dg: "list_all isdigit (snd (take_sign cs))"
    by (auto simp: exp_shape_def exp_mark_def)
  from ne obtain d ds where cs: "cs = d # ds" by (cases cs) (auto simp: take_sign_def)
  have digs: "list_all isdigit xs \<Longrightarrow> extract_loop True fd True xs = (xs, [])" for xs
    using extract_loop_digits [of xs True fd True "[]"] by (simp add: extract_loop.simps)
  show ?thesis
  proof (cases "is_sign d")
    case True
    with dg cs have "list_all isdigit ds" by (simp add: take_sign_def)
    with extract_loop_exp_sign [OF c _ _ True, of False True fd ds] show ?thesis
      by (simp add: Cons cs exp_field_def digs)
  next
    case False
    with dg cs have "list_all isdigit (d # ds)" by (simp add: take_sign_def)
    with extract_loop_exp_nosign [OF c _ _ False, of False True fd ds] show ?thesis
      by (simp add: Cons cs exp_field_def digs)
  qed
qed


definition mantissa :: "string \<Rightarrow> string \<Rightarrow> string \<Rightarrow> bool" where
  "mantissa ip dot fp =
     (list_all isdigit ip \<and> list_all isdigit fp \<and> (dot = [] \<and> fp = [] \<or> dot = ''.'') \<and>
      (ip \<noteq> [] \<or> fp \<noteq> []))"

lemma mantissa_tail:
  assumes "mantissa ip dot fp" "exp_shape ex"
  shows "dot @ fp @ ex = [] \<or> (\<not> isdigit (hd (dot @ fp @ ex)) \<and> hd (dot @ fp @ ex) \<noteq> CHR ''0'')"
    and "fp @ ex = [] \<or> dot = ''.'' \<or> fp = [] \<and> \<not> isdigit (hd ex) \<and> hd ex \<noteq> CHR ''.''"
    and "ex = [] \<or> \<not> isdigit (hd ex)"
    and "\<not> is_sign (hd (ip @ dot @ fp @ ex))" "ip @ dot @ fp @ ex \<noteq> []"
    and "\<not> isspace (hd (ip @ dot @ fp @ ex))"
proof -
  from assms(1) have m: "list_all isdigit ip" "list_all isdigit fp"
    "dot = [] \<and> fp = [] \<or> dot = ''.''" "ip \<noteq> [] \<or> fp \<noteq> []"
    by (auto simp: mantissa_def)
  note e = exp_shape_hd [OF assms(2)]
  show "dot @ fp @ ex = [] \<or> (\<not> isdigit (hd (dot @ fp @ ex)) \<and> hd (dot @ fp @ ex) \<noteq> CHR ''0'')"
    using m(3) e by (auto simp: isdigit_def)
  show "fp @ ex = [] \<or> dot = ''.'' \<or> fp = [] \<and> \<not> isdigit (hd ex) \<and> hd ex \<noteq> CHR ''.''"
    using m(3) e by auto
  show "ex = [] \<or> \<not> isdigit (hd ex)" using e by auto
  have h: "isdigit (hd (ip @ dot @ fp @ ex)) \<or> hd (ip @ dot @ fp @ ex) = CHR ''.''"
  proof (cases ip)
    case Nil
    with m(3,4) show ?thesis by auto
  next
    case (Cons c cs)
    with m(1) show ?thesis by simp
  qed
  then show "\<not> is_sign (hd (ip @ dot @ fp @ ex))"
    by (auto simp: is_sign_def isdigit_def)
  show "ip @ dot @ fp @ ex \<noteq> []" using m(3,4) by auto
  from h show "\<not> isspace (hd (ip @ dot @ fp @ ex))"
    by (auto simp: isspace_def isdigit_def)
qed

lemma fraction_part_shape:
  assumes "mantissa ip dot fp" "exp_shape ex"
  shows "fraction_part (dot @ fp @ ex) = (fp, ex)"
proof -
  from assms(1) have m: "list_all isdigit fp" "dot = [] \<and> fp = [] \<or> dot = ''.''"
    by (auto simp: mantissa_def)
  note e = exp_shape_hd [OF assms(2)]
  from m(2) show ?thesis
  proof
    assume "dot = [] \<and> fp = []"
    with e show ?thesis by (cases ex) (auto simp: fraction_part_def)
  next
    assume "dot = ''.''"
    with While_digits [OF m(1), of ex] e show ?thesis by (auto simp: fraction_part_def)
  qed
qed

lemma strtod_of_shape:
  assumes "opt_sign sg" "mantissa ip dot fp" "exp_shape ex"
  shows "strtod (sg @ ip @ dot @ fp @ ex) =
           Some (decimal (sg = ''-'') (digits_val (ip @ fp))
                   (fst (exponent_part ex) - int (length fp)), [])"
proof -
  note t = mantissa_tail [OF assms(2,3)]
  from assms(2) have m: "list_all isdigit ip" "ip \<noteq> [] \<or> fp \<noteq> []"
    by (auto simp: mantissa_def)
  have s: "take_sign (sg @ ip @ dot @ fp @ ex) = (sg = ''-'', ip @ dot @ fp @ ex)"
    by (rule take_sign_append [OF assms(1)]) (simp add: t(4))
  have d: "takeWhile isdigit (ip @ dot @ fp @ ex) = ip"
    "dropWhile isdigit (ip @ dot @ fp @ ex) = dot @ fp @ ex"
    using While_digits [OF m(1), of "dot @ fp @ ex"] t(1) by auto
  obtain k r where e: "exponent_part ex = (k, r)" by (cases "exponent_part ex")
  with exponent_part_shape [OF assms(3)] have r: "r = []" by simp
  from m(2) show ?thesis
    by (simp add: strtod_def s d fraction_part_shape [OF assms(2,3)] e r)
qed

lemma extract_float_of_shape:
  assumes "opt_sign sg" "mantissa ip dot fp" "exp_shape ex"
  shows "extract_float (sg @ ip @ dot @ fp @ ex) =
           (sg @ (if takeWhile (\<lambda>c. c = CHR ''0'') ip \<noteq> [] then ''0'' else []) @
            dropWhile (\<lambda>c. c = CHR ''0'') ip @ dot @ fp @ exp_field ex, [])"
proof -
  note t = mantissa_tail [OF assms(2,3)]
  from assms(2) have m: "list_all isdigit ip" "list_all isdigit fp"
    "dot = [] \<and> fp = [] \<or> dot = ''.''" "ip \<noteq> [] \<or> fp \<noteq> []"
    by (auto simp: mantissa_def)
  define zs where "zs = takeWhile (\<lambda>c. c = CHR ''0'') ip"
  define ip' where "ip' = dropWhile (\<lambda>c. c = CHR ''0'') ip"
  have ip: "ip = zs @ ip'" by (simp add: zs_def ip'_def)
  have ip'd: "list_all isdigit ip'"
    using m(1) unfolding ip'_def list_all_iff by (auto dest: set_dropWhileD)
  have sg: "(case sg @ ip @ dot @ fp @ ex of
              c # cs \<Rightarrow> if is_sign c then ([c], cs) else ([], sg @ ip @ dot @ fp @ ex)
            | [] \<Rightarrow> ([], sg @ ip @ dot @ fp @ ex)) = (sg, ip @ dot @ fp @ ex)"
  proof (cases sg)
    case Nil
    with t(4,5) show ?thesis by (cases "ip @ dot @ fp @ ex") auto
  next
    case (Cons g gs)
    with assms(1) show ?thesis by (auto simp: opt_sign_def)
  qed
  have z: "takeWhile (\<lambda>c. c = CHR ''0'') (ip @ dot @ fp @ ex) = zs"
    "dropWhile (\<lambda>c. c = CHR ''0'') (ip @ dot @ fp @ ex) = ip' @ dot @ fp @ ex"
    using While_append_stop [of "dot @ fp @ ex" "\<lambda>c. c = CHR ''0''" ip] t(1)
    by (auto simp: zs_def ip'_def)
  have fm: "(zs \<noteq> [] \<or> ip' \<noteq> []) = (ip \<noteq> [])" by (simp add: ip)
  have l1: "extract_loop (zs \<noteq> []) False False (ip' @ dot @ fp @ ex) =
      (ip' @ fst (extract_loop (ip \<noteq> []) False False (dot @ fp @ ex)),
       snd (extract_loop (ip \<noteq> []) False False (dot @ fp @ ex)))"
    unfolding fm [symmetric] by (rule extract_loop_digits [OF ip'd])
  have l2: "extract_loop (ip \<noteq> []) False False (dot @ fp @ ex) = (dot @ fp @ exp_field ex, [])"
    using m(3)
  proof
    assume a: "dot = [] \<and> fp = []"
    with m(4) have "ip \<noteq> []" by simp
    with a extract_loop_exp_shape [OF assms(3), of False] show ?thesis by simp
  next
    assume a: "dot = ''.''"
    have "extract_loop (ip \<noteq> []) True False (fp @ ex) =
        (fp @ fst (extract_loop True True False ex), snd (extract_loop True True False ex))"
      using extract_loop_digits [OF m(2), of "ip \<noteq> []" True False ex] m(4) by auto
    with a extract_loop_exp_shape [OF assms(3), of True] show ?thesis
      by (simp add: extract_loop_point)
  qed
  show ?thesis
    unfolding extract_float_def sg
    by (simp add: z l1 l2 zs_def [symmetric] ip'_def [symmetric])
qed


lemma strtod_shape:
  assumes "strtod t = Some (v, [])"
  obtains sg ip dot fp ex where
    "t = sg @ ip @ dot @ fp @ ex" "opt_sign sg" "mantissa ip dot fp" "exp_shape ex"
proof -
  obtain sg where sg: "opt_sign sg" "t = sg @ snd (take_sign t)"
    by (rule take_sign_split [of t]) blast
  define s1 where "s1 = snd (take_sign t)"
  define ip where "ip = takeWhile isdigit s1"
  define s2 where "s2 = dropWhile isdigit s1"
  define fp where "fp = fst (fraction_part s2)"
  define s3 where "s3 = snd (fraction_part s2)"
  define dot where "dot = (case s2 of c # cs \<Rightarrow> if c = CHR ''.'' then ''.'' else [] | [] \<Rightarrow> [])"
  have s1: "s1 = ip @ s2" by (simp add: ip_def s2_def)
  have s2: "s2 = dot @ fp @ s3"
    by (cases s2) (auto simp: dot_def fp_def s3_def fraction_part_def)
  have d: "dot = [] \<and> fp = [] \<or> dot = ''.''"
    by (cases s2) (auto simp: dot_def fp_def fraction_part_def)
  have di: "list_all isdigit ip"
    unfolding ip_def list_all_iff by (auto dest: set_takeWhileD)
  have df: "list_all isdigit fp"
    unfolding fp_def list_all_iff
    by (cases s2) (auto simp: fraction_part_def dest: set_takeWhileD)
  from assms have ne: "ip \<noteq> [] \<or> fp \<noteq> []" and e: "snd (exponent_part s3) = []"
    by (auto simp: strtod_def case_prod_unfold Let_def s1_def [symmetric] ip_def [symmetric]
                   s2_def [symmetric] fp_def [symmetric] s3_def [symmetric]
             split: if_splits)
  have ex: "exp_shape s3"
  proof (cases s3)
    case Nil
    then show ?thesis by (simp add: exp_shape_def)
  next
    case (Cons c cs)
    with e show ?thesis
      by (auto simp: exp_shape_def exp_mark_def exponent_part_def Let_def case_prod_unfold
                     list_all_iff dropWhile_eq_Nil_conv
               split: if_splits)
  qed
  from di df d ne have m: "mantissa ip dot fp" by (simp add: mantissa_def)
  from sg(2) s1 s2 have "t = sg @ ip @ dot @ fp @ s3" by (simp add: s1_def)
  from this sg(1) m ex show ?thesis by (rule that)
qed

lemma digits_val_zeros:
  "list_all (\<lambda>c. c = CHR ''0'') zs \<Longrightarrow> digits_val (zs @ ds) = digits_val ds"
proof -
  assume z: "list_all (\<lambda>c. c = CHR ''0'') zs"
  then have "foldl (\<lambda>a c. 10 * a + digit_val c) 0 zs = 0"
    by (induction zs) (auto simp: digit_val_def)
  then show ?thesis by (simp add: digits_val_def)
qed

lemma strtod_accepts_extract:
  assumes "strtod t = Some (v, [])"
  shows "extract_double t = (case v of Infinity s \<Rightarrow> None | _ \<Rightarrow> Some (v, []))"
proof -
  from assms obtain sg ip dot fp ex where t: "t = sg @ ip @ dot @ fp @ ex"
    and sg: "opt_sign sg" and m: "mantissa ip dot fp" and ex: "exp_shape ex"
    by (rule strtod_shape)
  define zs where "zs = takeWhile (\<lambda>c. c = CHR ''0'') ip"
  define ip' where "ip' = dropWhile (\<lambda>c. c = CHR ''0'') ip"
  define norm where "norm = (if zs \<noteq> [] then ''0'' else []) @ ip'"
  have ip: "ip = zs @ ip'" by (simp add: zs_def ip'_def)
  have zz: "list_all (\<lambda>c. c = CHR ''0'') zs"
    unfolding zs_def list_all_iff by (auto dest: set_takeWhileD)
  from m have mm: "list_all isdigit ip" "list_all isdigit fp"
    "dot = [] \<and> fp = [] \<or> dot = ''.''" "ip \<noteq> [] \<or> fp \<noteq> []"
    by (auto simp: mantissa_def)
  have "list_all isdigit ip'"
    using mm(1) unfolding ip'_def list_all_iff by (auto dest: set_dropWhileD)
  then have nd: "list_all isdigit norm" by (simp add: norm_def isdigit_def)
  have nn: "norm \<noteq> [] \<or> fp \<noteq> []" using mm(4) by (auto simp: norm_def ip)
  from nd mm(2,3) nn have mn: "mantissa norm dot fp" by (simp add: mantissa_def)
  have v: "v = decimal (sg = ''-'') (digits_val (ip @ fp)) (fst (exponent_part ex) - int (length fp))"
    using strtod_of_shape [OF sg m ex] assms by (simp add: t)
  have dv: "digits_val (norm @ fp) = digits_val (ip @ fp)"
  proof -
    have "digits_val (norm @ fp) = digits_val (ip' @ fp)"
      using digits_val_zeros [of "''0''" "ip' @ fp"] by (simp add: norm_def)
    also have "\<dots> = digits_val (zs @ ip' @ fp)"
      using digits_val_zeros [OF zz, of "ip' @ fp"] by simp
    finally show ?thesis by (simp add: ip)
  qed
  have xf: "extract_float t = (sg @ norm @ dot @ fp @ exp_field ex, [])"
    using extract_float_of_shape [OF sg m ex]
    by (simp add: t norm_def zs_def ip'_def)
  have "strtod (sg @ norm @ dot @ fp @ exp_field ex) = Some (v, [])"
    using strtod_of_shape [OF sg mn exp_shape_field [OF ex]]
    by (simp add: v dv exponent_part_field [OF ex])
  then have cv: "convert_to_v (sg @ norm @ dot @ fp @ exp_field ex) =
      (case v of Infinity s \<Rightarrow> None | _ \<Rightarrow> Some v)"
    by (simp add: convert_to_v_def)
  note tl = mantissa_tail [OF m ex]
  have "t \<noteq> [] \<and> \<not> isspace (hd t)"
  proof (cases sg)
    case Nil
    with tl(5,6) show ?thesis by (simp add: t)
  next
    case (Cons g gs)
    with sg have "is_sign g" by (simp add: opt_sign_def)
    then have "\<not> isspace g" by (auto simp: is_sign_def isspace_def)
    with Cons show ?thesis by (simp add: t)
  qed
  then have "dropWhile isspace t = t" by (cases t) auto
  then show ?thesis
    using \<open>t \<noteq> [] \<and> \<not> isspace (hd t)\<close>
    by (simp add: extract_double_def xf cv split: double.splits)
qed

lemma decimal_token_is_number:
  assumes "convert_to_v t = Some v"
  shows "number_of t = Some v"
proof -
  from assms have st: "strtod t = Some (v, [])"
    by (auto simp: convert_to_v_def split: option.splits if_splits double.splits)
  show ?thesis
  proof (cases v)
    case (Infinity s)
    with assms st show ?thesis by (simp add: convert_to_v_def)
  next
    case (Finite s m e)
    with strtod_accepts_extract [OF st] show ?thesis by (simp add: number_of_def)
  next
    case NaN
    with strtod_accepts_extract [OF st] show ?thesis by (simp add: number_of_def)
  qed
qed

lemma decimal_tokens_are_numbers:
  "map convert_to_v ts = map Some vs \<Longrightarrow> map number_of ts = map Some vs"
  by (induction ts arbitrary: vs) (auto dest: decimal_token_is_number)

lemma decimal_token_in_range:
  "decimal_token t = Some v \<Longrightarrow> in_range v \<Longrightarrow> convert_to_v t = Some v"
  by (auto simp: decimal_token_def in_range_def convert_to_v_def
           split: option.splits list.splits double.splits)

lemma decimal_tokens_in_range:
  "map decimal_token ts = map Some vs \<Longrightarrow> list_all in_range vs \<Longrightarrow>
     map number_of ts = map Some vs"
proof (induction ts arbitrary: vs)
  case Nil
  then show ?case by simp
next
  case (Cons t ts)
  then obtain v vs' where vs: "vs = v # vs'" by (cases vs) auto
  with Cons.prems have "decimal_token t = Some v" "in_range v"
    "map decimal_token ts = map Some vs'" "list_all in_range vs'" by auto
  with Cons.IH [of vs'] vs show ?case
    by (simp add: decimal_token_is_number [OF decimal_token_in_range])
qed

subsection \<open>Numbers too large for a \<open>double\<close>\<close>

text \<open>
  \<open>bits n\<close> is the number of binary digits of \<open>n\<close>, so a whole number of \<open>2^1024\<close> or more
  is rounded to an infinity.
\<close>

lemma bits_gt: "2 ^ k \<le> n \<Longrightarrow> k < bits n"
proof (induction k arbitrary: n)
  case 0
  then show ?case by (subst bits.simps) simp
next
  case (Suc k)
  have "(0::nat) < 2 * 2 ^ k" by simp
  with Suc.prems have "n \<noteq> 0" by (cases "n = 0") simp_all
  moreover from Suc.prems have "2 ^ k \<le> n div 2" by simp
  ultimately show ?case using Suc.IH [of "n div 2"] by (subst bits.simps) simp
qed

lemma bits_pow_le: "0 < n \<Longrightarrow> 2 ^ (bits n - 1) \<le> n"
proof (induction n rule: bits.induct)
  case (1 n)
  show ?case
  proof (cases "n div 2 = 0")
    case True
    with "1.prems" have "bits n = 1" by (subst bits.simps, subst bits.simps) simp
    with "1.prems" show ?thesis by simp
  next
    case False
    then have "0 < bits (n div 2)" by (subst bits.simps) simp
    then have "(2::nat) ^ bits (n div 2) = 2 * 2 ^ (bits (n div 2) - 1)"
      by (cases "bits (n div 2)") simp_all
    moreover from "1.prems" have "bits n - 1 = bits (n div 2)" by (subst bits.simps) simp
    ultimately have A: "(2::nat) ^ (bits n - 1) = 2 * 2 ^ (bits (n div 2) - 1)" by simp
    from "1.IH" False "1.prems" have B: "2 * 2 ^ (bits (n div 2) - 1) \<le> 2 * (n div 2)" by simp
    have C: "2 * (n div 2) \<le> n" by simp
    from A B C show ?thesis by linarith
  qed
qed

lemma round_double_overflow:
  assumes "2 ^ 1024 \<le> p"
  shows "round_double s p (Suc 0) = Infinity s"
proof -
  from assms have p: "0 < p" by (cases "p = 0") auto
  have b1: "bits (Suc 0) = Suc 0" by (subst bits.simps, subst bits.simps) simp
  from bits_gt [OF assms] have bp: "1024 < bits p" .
  have r: "ratio_ge p (Suc 0) 2 (int (bits p) - 1)"
    using bits_pow_le [OF p] bp by (simp add: ratio_ge_def nat_diff_distrib)
  then have e: "ilog2 p (Suc 0) = int (bits p) - 1" by (simp add: ilog2_def b1 Let_def)
  from bp have u: "max (int (bits p) - 1 - 52) (- 1074) = int (bits p) - 53" by simp
  from p bp show ?thesis
    by (simp add: round_double_def e Let_def u split: prod.splits)
qed

section \<open>The statements of the specification\<close>

text \<open>
  \<open>sum_of_squares\<close> is the specification's fold: seeded at zero, combining with
  \<open>combine(acc, v) = acc + v^2\<close>, in \<open>double\<close> arithmetic.
\<close>

definition sum_of_squares :: "double list \<Rightarrow> double" where
  "sum_of_squares vs = foldl (\<lambda>acc v. dadd acc (dmul v v)) dzero vs"


text \<open>
  A line \<open>yields_number\<close> when the inner loop has pushed a value, which is the program's
  test \<open>v.size()\<close>; its result is then the one line it writes. This is weaker than having
  a token that is a number somewhere (\<open>has_parseable_number\<close>).
\<close>

definition has_parseable_number :: "string \<Rightarrow> bool" where
  "has_parseable_number l = (\<exists>t \<in> set (tokenize l). number_of t \<noteq> None)"

definition yields_number :: "string \<Rightarrow> bool" where
  "yields_number l = (read_numbers l [] \<noteq> [])"

definition line_result :: "string \<Rightarrow> string" where
  "line_result l = show_double (sum_of_squares (read_numbers l []))"

text \<open>Unfolding rules for running the definitions on concrete input.\<close>

lemmas num_eval = bits.simps ratio_ge_def rne_div_def rne_scaled_def ilog2_def round_double_def
  round_dyadic_def with_sign_def dzero_def sum_squares_def Let_def
lemmas scan_eval = isspace_def isdigit_def digit_val_def digits_val_def is_sign_def strtod_def
  take_sign_def fraction_part_def exponent_part_def decimal_def
  convert_to_v_def extract_float_def extract_double_def extract_loop.simps read_numbers.simps
  tokenize.simps number_of_def
lemmas show_eval = show_nat.simps ilog10_def strip_zeros_def show_exp_def show_g_def
lemmas line_eval = process_line_def sum_of_squares_def num_eval scan_eval show_eval

lemma process_line_cases:
  "process_line l = (if yields_number l then [line_result l] else [])"
  by (simp add: process_line_def yields_number_def line_result_def sum_of_squares_def
                accumulate_foldl sum_squares_def [abs_def])

lemma concat_process_line:
  "concat (map process_line ls) = map line_result (filter yields_number ls)"
  by (induction ls) (simp_all add: process_line_cases)

lemma terminated_split:
  assumes "terminated pre" "pre \<noteq> []"
  shows "\<exists>l rest. pre = l @ newline # rest \<and> newline \<notin> set l \<and> terminated rest \<and> length rest < length pre"
proof -
  define l where "l = takeWhile (\<lambda>c. c \<noteq> newline) pre"
  from assms have "newline \<in> set pre"
    unfolding terminated_def by (metis last_in_set)
  then have "dropWhile (\<lambda>c. c \<noteq> newline) pre \<noteq> []" by (simp add: dropWhile_eq_Nil_conv)
  then obtain d rest where d: "dropWhile (\<lambda>c. c \<noteq> newline) pre = d # rest"
    by (cases "dropWhile (\<lambda>c. c \<noteq> newline) pre") auto
  then have p: "pre = l @ newline # rest" unfolding l_def by (rule split_at_newline)
  moreover have "newline \<notin> set l" unfolding l_def by (rule no_newline_takeWhile)
  moreover from assms(1) p have "terminated rest" by (simp add: terminated_line)
  moreover from p have "length rest < length pre" by simp
  ultimately show ?thesis by blast
qed

lemma outputs_append:
  "terminated pre \<Longrightarrow> outputs (pre @ x) = concat (map process_line (input_lines pre)) @ outputs x"
proof (induction "length pre" arbitrary: pre rule: less_induct)
  case less
  show ?case
  proof (cases "pre = []")
    case True
    then show ?thesis by simp
  next
    case False
    from terminated_split [OF less.prems False] obtain l rest where
      p: "pre = l @ newline # rest" and nl: "newline \<notin> set l" and t: "terminated rest"
      and len: "length rest < length pre" by blast
    from less.hyps [OF len t] nl show ?thesis
      using outputs_line [OF nl, of "rest @ x"] by (simp add: p input_lines_line)
  qed
qed

lemma outputs_terminated:
  "terminated input \<Longrightarrow> outputs input = concat (map process_line (input_lines input))"
  using outputs_append [of input "[]"] by (simp add: outputs_Nil)

lemma main_terminates: "\<exists>out. main input = Some (out, 0)"
  by (simp add: main_eq)

text \<open>
  The first line of the tutorial's \<open>numbers.txt\<close>, and the line the tutorial shows as the
  output of \<open>./foo < numbers.txt\<close> for it.
\<close>

lemma tutorial_first_line:
  "process_line ''5.270539741683482049e-01 9.538059079198231149e-01 9.705379757246932471e-01'' =
     [''2.12948'']"
  by (simp add: line_eval)

subsection \<open>C1: a line of numbers gives one line, the sum of their squares\<close>

text \<open>
  Claim C1. For every input line that consists entirely of valid decimal numeric tokens
  \<open>v\<^sub>1 \<dots> v\<^sub>n\<close>, \<open>n \<ge> 1\<close>, the filter writes exactly one output line, and its value is the
  left fold over the parsed numbers seeded at zero with \<open>combine(acc, v) = acc + v^2\<close>.

  A decimal number can be too large for a \<open>double\<close>. The token \<open>1e309\<close> is one; its square
  is infinite, and so is every sum it is part of, so the claim promises the line \<open>inf\<close>
  both for the line \<open>1e309\<close> and for the line \<open>1 1e309 3\<close>. The extractor does not convert
  such a token: it sets \<open>failbit\<close>, and the line ends there. The program writes nothing for
  the first line and \<open>1\<close> for the second.
\<close>

theorem out_of_range_counterexample:
  "map decimal_token (tokenize ''1e309'') = map Some [Infinity False] \<and>
   show_double (sum_of_squares [Infinity False]) = ''inf'' \<and>
   process_line ''1e309'' = [] \<and> main (''1e309'' @ [newline]) = Some ([], 0) \<and>
   map decimal_token (tokenize ''1 1e309 3'') =
     map Some [Finite False 4503599627370496 (- 52), Infinity False,
               Finite False 6755399441055744 (- 51)] \<and>
   show_double (sum_of_squares [Finite False 4503599627370496 (- 52), Infinity False,
                                Finite False 6755399441055744 (- 51)]) = ''inf'' \<and>
   process_line ''1 1e309 3'' = [''1'']"
proof -
  have t: "tokenize ''1e309'' = [''1e309'']" "tokenize ''1 1e309 3'' = [''1'', ''1e309'', ''3'']"
    by (simp_all add: tokenize.simps isspace_def)
  have st: "strtod ''1e309'' = Some (Infinity False, [])"
    by (simp add: isdigit_def digit_val_def digits_val_def is_sign_def strtod_def take_sign_def
        fraction_part_def exponent_part_def decimal_def with_sign_def Let_def
        round_double_overflow)
  have d: "decimal_token ''1e309'' = Some (Infinity False)"
    by (simp add: decimal_token_def st)
  have d': "decimal_token ''1'' = Some (Finite False 4503599627370496 (- 52))"
    "decimal_token ''3'' = Some (Finite False 6755399441055744 (- 51))"
    by (simp_all add: decimal_token_def scan_eval num_eval)
  have cv: "convert_to_v ''1e309'' = None"
    by (simp add: convert_to_v_def st)
  have xf: "extract_float ''1e309'' = (''1e309'', [])"
    "extract_float ''1e309 3'' = (''1e309'', '' 3'')"
    by (simp_all add: extract_float_def extract_loop.simps isdigit_def is_sign_def Let_def)
  have e: "extract_double ''1e309'' = None" "extract_double '' 1e309 3'' = None"
    by (simp_all add: extract_double_def isspace_def xf cv)
  have e1: "extract_double ''1 1e309 3'' =
      Some (Finite False 4503599627370496 (- 52), '' 1e309 3'')"
    by (simp add: scan_eval num_eval)
  have r: "read_numbers ''1e309'' [] = []"
    "read_numbers ''1 1e309 3'' [] = [Finite False 4503599627370496 (- 52)]"
    by (simp_all add: read_numbers.simps e e1)
  have s: "show_double (sum_of_squares [Infinity False]) = ''inf''"
    "show_double (sum_of_squares [Finite False 4503599627370496 (- 52), Infinity False,
                                  Finite False 6755399441055744 (- 51)]) = ''inf''"
    by (simp_all add: sum_of_squares_def num_eval)
  have p: "process_line ''1e309'' = []" "process_line ''1 1e309 3'' = [''1'']"
    by (simp_all add: process_line_def r num_eval show_eval)
  have m: "main (''1e309'' @ [newline]) = Some ([], 0)"
    by (simp add: main_eq outputs_def last_line_def terminated_def newline_def p process_line_Nil)
  from t d d' s p m show ?thesis by simp
qed

text \<open>
  Claim C1 as amended: for every input line that consists entirely of decimal numeric tokens
  \<open>v\<^sub>1 \<dots> v\<^sub>n\<close>, \<open>n \<ge> 1\<close>, each within the range of \<open>double\<close>, the iteration of the loop that
  reads the line writes exactly one output line, whose value is the left fold over the
  numbers seeded at zero with \<open>combine(acc, v) = acc + v^2\<close>; the program run on that line
  followed by its newline writes exactly that line and exits with status 0.
  The tokens are decimal numbers by \<open>decimal_token\<close>, which does not involve the extractor.
\<close>

theorem line_sum_of_squares:
  assumes "map decimal_token (tokenize l) = map Some vs" and "list_all in_range vs"
    and "vs \<noteq> []" and "newline \<notin> set l"
  shows "process_line l = [show_double (sum_of_squares vs)] \<and>
         main (l @ [newline]) = Some ([show_double (sum_of_squares vs)], 0)"
proof -
  have n: "map number_of (tokenize l) = map Some vs"
    using assms(1,2) by (rule decimal_tokens_in_range)
  have "read_numbers l [] = [] @ vs"
    by (rule read_numbers_tokens [of l "tokenize l" "[]"]) (simp_all add: n)
  with assms(3) have p: "process_line l = [show_double (sum_of_squares vs)]"
    by (simp add: process_line_def accumulate_foldl sum_of_squares_def sum_squares_def [abs_def])
  from outputs_line [OF assms(4), of "[]"] p show ?thesis
    by (simp add: main_eq outputs_Nil)
qed

theorem line_sum_of_squares_witness:
  "map decimal_token (tokenize ''1 2 3'') =
     map Some [Finite False 4503599627370496 (- 52), Finite False 4503599627370496 (- 51),
               Finite False 6755399441055744 (- 51)] \<and>
   process_line ''1 2 3'' = [''14''] \<and> main (''1 2 3'' @ [newline]) = Some ([''14''], 0) \<and>
   map decimal_token (tokenize ''-1.5e1 2E-1'') =
     map Some [Finite True 8444249301319680 (- 49), Finite False 7205759403792794 (- 55)] \<and>
   process_line ''-1.5e1 2E-1'' = [''225.04''] \<and>
   main (''-1.5e1 2E-1'' @ [newline]) = Some ([''225.04''], 0) \<and>
   map decimal_token (tokenize ''1e-3'') = map Some [Finite False 4611686018427388 (- 62)] \<and>
   process_line ''1e-3'' = [''1e-06''] \<and> main (''1e-3'' @ [newline]) = Some ([''1e-06''], 0)"
proof -
  let ?a = "[Finite False 4503599627370496 (- 52), Finite False 4503599627370496 (- 51),
             Finite False 6755399441055744 (- 51)]"
  let ?b = "[Finite True 8444249301319680 (- 49), Finite False 7205759403792794 (- 55)]"
  let ?c = "[Finite False 4611686018427388 (- 62)]"
  have t: "tokenize ''1 2 3'' = [''1'', ''2'', ''3'']"
    "tokenize ''-1.5e1 2E-1'' = [''-1.5e1'', ''2E-1'']" "tokenize ''1e-3'' = [''1e-3'']"
    by (simp_all add: tokenize.simps isspace_def)
  have a: "map decimal_token (tokenize ''1 2 3'') = map Some ?a"
    unfolding t by (simp add: decimal_token_def scan_eval num_eval)
  have b: "map decimal_token (tokenize ''-1.5e1 2E-1'') = map Some ?b"
    unfolding t by (simp add: decimal_token_def scan_eval num_eval)
  have c: "map decimal_token (tokenize ''1e-3'') = map Some ?c"
    unfolding t by (simp add: decimal_token_def scan_eval num_eval)
  have r: "list_all in_range ?a" "list_all in_range ?b" "list_all in_range ?c"
    by (simp_all add: in_range_def)
  have n: "newline \<notin> set ''1 2 3''" "newline \<notin> set ''-1.5e1 2E-1''" "newline \<notin> set ''1e-3''"
    by (simp_all add: newline_def)
  have s: "show_double (sum_of_squares ?a) = ''14''"
    "show_double (sum_of_squares ?b) = ''225.04''"
    "show_double (sum_of_squares ?c) = ''1e-06''"
    by (simp_all add: sum_of_squares_def num_eval show_eval)
  note w = line_sum_of_squares [OF a r(1) _ n(1), unfolded s]
    line_sum_of_squares [OF b r(2) _ n(2), unfolded s]
    line_sum_of_squares [OF c r(3) _ n(3), unfolded s]
  from a b c w show ?thesis by simp
qed

subsection \<open>C2: where the parsing of a line stops\<close>





subsection \<open>C3: a line without a number is passed over\<close>

text \<open>
  Claim C3. For every input line from which zero numbers are parsed (an empty line or a line
  whose content is non-numeric), the filter writes no output line for that line and signals
  no error; malformed numeric tokens never terminate the process.
  Here: such a line \<open>l\<close> makes the body write nothing; in a stream, after complete lines
  \<open>pre\<close> and before any \<open>post\<close>, the run on the stream with \<open>l\<close> is the run on the stream
  without it, lines written and exit status; and that run ends with status 0.
\<close>

theorem no_number_no_output:
  assumes "read_numbers l [] = []" and "newline \<notin> set l" and "terminated pre"
  shows "process_line l = [] \<and>
         main (pre @ l @ newline # post) = main (pre @ post) \<and>
         (\<exists>out. main (pre @ l @ newline # post) = Some (out, 0))"
proof -
  from assms(1) have p: "process_line l = []" by (simp add: process_line_def)
  have "outputs (pre @ l @ newline # post) = outputs (pre @ post)"
    by (simp add: outputs_append [OF assms(3)] outputs_line [OF assms(2)] p)
  with p show ?thesis by (simp add: main_eq)
qed

theorem no_number_no_output_witness:
  "read_numbers ''abc'' [] = [] \<and> newline \<notin> set ''abc'' \<and> terminated (''1'' @ [newline]) \<and>
   process_line ''abc'' = [] \<and>
   main ((''1'' @ [newline]) @ ''abc'' @ newline # (''2'' @ [newline])) = Some ([''1'', ''4''], 0)"
proof -
  have r: "read_numbers ''abc'' [] = []" by (simp add: scan_eval num_eval)
  have n: "newline \<notin> set ''abc''" by (simp add: newline_def)
  have t: "terminated (''1'' @ [newline])" by (simp add: terminated_def)
  have p: "process_line ''1'' = [''1'']" "process_line ''2'' = [''4'']"
    by (simp_all add: line_eval)
  have m: "main ((''1'' @ [newline]) @ (''2'' @ [newline])) = Some ([''1'', ''4''], 0)"
    by (simp add: main_eq outputs_def last_line_def terminated_def newline_def p process_line_Nil)
  from no_number_no_output [OF r n t, of "''2'' @ [newline]"] r n t m show ?thesis by simp
qed

subsection \<open>C5: the two concrete lines\<close>

text \<open>
  Claim C5. The input line \<open>1 2 3\<close> produces the output line \<open>14\<close>, and the input line
  \<open>2.0 3.0\<close> produces the output line \<open>13\<close>: for the body of the loop, and for the program
  on each line followed by its newline.
\<close>

theorem concrete_cases:
  "process_line ''1 2 3'' = [''14''] \<and> process_line ''2.0 3.0'' = [''13''] \<and>
   main (''1 2 3'' @ [newline]) = Some ([''14''], 0) \<and>
   main (''2.0 3.0'' @ [newline]) = Some ([''13''], 0)"
proof -
  have p: "process_line ''1 2 3'' = [''14'']" "process_line ''2.0 3.0'' = [''13'']"
    by (simp_all add: line_eval)
  have "main (''1 2 3'' @ [newline]) = Some ([''14''], 0)"
    by (simp add: main_eq outputs_def last_line_def terminated_def newline_def p process_line_Nil)
  moreover have "main (''2.0 3.0'' @ [newline]) = Some ([''13''], 0)"
    by (simp add: main_eq outputs_def last_line_def terminated_def newline_def p process_line_Nil)
  ultimately show ?thesis using p by blast
qed

subsection \<open>C7: the output is a function of the input\<close>

text \<open>
  Claim C7. The filter is deterministic: two runs on the same input produce byte-identical
  output, and no hidden state influences the result.
  Here: both runs return, with status 0 and the same bytes on standard output. The one
  variable that outlives an iteration is the string \<open>s\<close>; whatever it held before the loop,
  the loop ends in the same state, so its earlier content is not a hidden input.
\<close>

theorem same_input_same_output:
  assumes "input1 = input2"
  shows "(\<exists>out1 out2. main input1 = Some (out1, 0) \<and> main input2 = Some (out2, 0) \<and>
            stdout_bytes out1 = stdout_bytes out2) \<and>
         main_loop ((initial input1)\<lparr>str := s0\<rparr>) = main_loop (initial input2)"
  using assms by (simp add: main_eq initial_def main_loop_good)

theorem same_input_same_output_witness:
  "(\<exists>out1 out2. main (''1 2 3'' @ [newline]) = Some (out1, 0) \<and>
      main (''1 2 3'' @ [newline]) = Some (out2, 0) \<and> stdout_bytes out1 = stdout_bytes out2) \<and>
   main (''1 2 3'' @ [newline]) = Some ([''14''], 0) \<and>
   main_loop ((initial (''1 2 3'' @ [newline]))\<lparr>str := ''9''\<rparr>) =
     main_loop (initial (''1 2 3'' @ [newline]))"
proof -
  have p: "process_line ''1 2 3'' = [''14'']"
    by (simp add: line_eval)
  have m: "main (''1 2 3'' @ [newline]) = Some ([''14''], 0)"
    by (simp add: main_eq outputs_def last_line_def terminated_def newline_def p process_line_Nil)
  from same_input_same_output [OF refl, of "''1 2 3'' @ [newline]" "''9''"] m
  show ?thesis by blast
qed

subsection \<open>C9: a last line without its newline\<close>

text \<open>
  Claim C9. A final input line that is not terminated by a newline is still processed: if it
  contains at least one parseable number, its sum of squares is written before the process
  exits; the read that succeeds and also reaches the end of the input is not discarded.
  Here: after complete lines \<open>pre\<close>, a last line \<open>l\<close> without newline from which the values
  \<open>vs\<close> are read, at least one, has its sum of squares written after the output of \<open>pre\<close>,
  and the run ends with status 0. The theorem gives the whole output: the line is there,
  and it is there a second time, which is the subject of C10.
\<close>

theorem unterminated_last_line:
  assumes "terminated pre" and "newline \<notin> set l" and "read_numbers l [] = vs" and "vs \<noteq> []"
  shows "main (pre @ l) =
           Some (concat (map process_line (input_lines pre)) @
                 [show_double (sum_of_squares vs), show_double (sum_of_squares vs)], 0)"
proof -
  from assms(3,4) have ne: "l \<noteq> []"
    by (auto simp: read_numbers.simps extract_double_Nil)
  from assms(3,4) have p: "process_line l = [show_double (sum_of_squares vs)]"
    by (simp add: process_line_def accumulate_foldl sum_of_squares_def sum_squares_def [abs_def])
  show ?thesis
    by (simp add: main_eq outputs_append [OF assms(1)] outputs_last [OF assms(2) ne] p)
qed

theorem unterminated_last_line_witness:
  "terminated (''1'' @ [newline]) \<and> newline \<notin> set ''2 2'' \<and>
   read_numbers ''2 2'' [] =
     [Finite False 4503599627370496 (- 51), Finite False 4503599627370496 (- 51)] \<and>
   main ((''1'' @ [newline]) @ ''2 2'') = Some ([''1'', ''8'', ''8''], 0)"
proof -
  let ?vs = "[Finite False 4503599627370496 (- 51), Finite False 4503599627370496 (- 51)]"
  have t: "terminated (''1'' @ [newline])" by (simp add: terminated_def)
  have n: "newline \<notin> set ''2 2''" by (simp add: newline_def)
  have r: "read_numbers ''2 2'' [] = ?vs" by (simp add: scan_eval num_eval)
  have v: "?vs \<noteq> []" by simp
  have s: "show_double (sum_of_squares ?vs) = ''8''"
    by (simp add: sum_of_squares_def num_eval show_eval)
  have p: "process_line ''1'' = [''1'']" by (simp add: line_eval)
  have i: "concat (map process_line (input_lines (''1'' @ [newline]))) = [''1'']"
    by (simp add: newline_def p)
  have m: "main ((''1'' @ [newline]) @ ''2 2'') = Some ([''1'', ''8'', ''8''], 0)"
    unfolding unterminated_last_line [OF t n r v] i s by simp
  from t n r m show ?thesis by blast
qed

subsection \<open>Input that ends with a newline\<close>

text \<open>
  When every line of the input ends with a newline, the output lines are, in the order of
  the input, the results of exactly the lines from which the inner loop reads at least one
  number, one output line for each.
\<close>

lemma terminated_stream_output:
  assumes "terminated input"
  shows "\<exists>out. main input = Some (out, 0) \<and>
           out = map line_result (filter yields_number (input_lines input)) \<and>
           length out = length (filter yields_number (input_lines input))"
  using assms by (simp add: main_eq outputs_terminated concat_process_line)

text \<open>
  A number that comes after a token the extractor fails on is never read: the line
  \<open>abc 5\<close> has a token that is a number, and yields none.
\<close>

lemma number_after_failure_not_read:
  "has_parseable_number ''abc 5'' \<and> \<not> yields_number ''abc 5'' \<and>
   main (''abc 5'' @ [newline]) = Some ([], 0)"
proof -
  have t: "tokenize ''abc 5'' = [''abc'', ''5'']"
    by (simp add: tokenize.simps isspace_def)
  have n: "number_of ''5'' = Some (Finite False 5629499534213120 (- 50))"
    by (simp add: scan_eval num_eval)
  have h: "has_parseable_number ''abc 5''"
    by (simp add: has_parseable_number_def t n)
  have r: "read_numbers ''abc 5'' [] = []"
    by (simp add: scan_eval num_eval)
  have p: "process_line ''abc 5'' = []"
    by (simp add: process_line_def r)
  have m: "main (''abc 5'' @ [newline]) = Some ([], 0)"
    by (simp add: main_eq outputs_def last_line_def terminated_def newline_def p process_line_Nil)
  from h r m show ?thesis by (simp add: yields_number_def)
qed

section \<open>Where the program departs from the specification\<close>

text \<open>
  The four statements of this section fail on the program for one reason. \<open>while (cin)\<close>
  tests the stream before the read, and the read that reaches the end of the input while
  taking a last line without newline sets \<open>eofbit\<close> only. The loop is entered once more;
  \<open>getline\<close> then fails without touching \<open>s\<close>, and the body processes the old content of
  \<open>s\<close> again. \<open>main_loop_good\<close> is the general fact; each theorem below runs the program on
  one input.
\<close>

subsection \<open>C10: the iteration whose read fails\<close>

text \<open>
  Claim C10. Each input line yields at most one output line; the extra iteration that the
  filter performs after the last successful read, when the read fails at the end of the
  input, never writes output, so the result of the last line is never duplicated.
  The program on the input \<open>1 2 3\<close> without newline, which is one line, writes \<open>14\<close> twice.
\<close>

theorem last_line_written_twice:
  "input_lines ''1 2 3'' = [''1 2 3''] \<and> main ''1 2 3'' = Some ([''14'', ''14''], 0)"
proof -
  have p: "process_line ''1 2 3'' = [''14'']"
    by (simp add: line_eval)
  have i: "input_lines ''1 2 3'' = [''1 2 3'']"
    by (simp add: newline_def)
  have m: "main ''1 2 3'' = Some ([''14'', ''14''], 0)"
    by (simp add: main_eq outputs_def last_line_def terminated_def newline_def p)
  from i m show ?thesis by blast
qed

subsection \<open>C4: how many lines are written\<close>

text \<open>
  Claim C4. For every finite input stream of \<open>N\<close> lines, the number of output lines equals the
  number of input lines that contain at least one parseable number, and the output lines
  appear in the order of their input lines, one output line per qualifying input line.
  A line qualifies when the filter parses at least one number from it (\<open>yields_number\<close>).
  For input that ends with a newline this is \<open>terminated_stream_output\<close>. The input \<open>5\<close>
  without newline is one line, it qualifies, and two lines are written.
\<close>

theorem one_line_two_output_lines:
  "input_lines ''5'' = [''5''] \<and> filter yields_number (input_lines ''5'') = [''5''] \<and>
   main ''5'' = Some ([''25'', ''25''], 0)"
proof -
  have p: "process_line ''5'' = [''25'']"
    by (simp add: line_eval)
  have i: "input_lines ''5'' = [''5'']"
    by (simp add: newline_def)
  have r: "read_numbers ''5'' [] = [Finite False 5629499534213120 (- 50)]"
    by (simp add: scan_eval num_eval)
  have y: "filter yields_number (input_lines ''5'') = [''5'']"
    unfolding i by (simp add: yields_number_def r)
  have m: "main ''5'' = Some ([''25'', ''25''], 0)"
    by (simp add: main_eq outputs_def last_line_def terminated_def newline_def p)
  from i y m show ?thesis by blast
qed

subsection \<open>C8: state kept from one line to the next\<close>

text \<open>
  Claim C8. The filter keeps no cross-line state: its output is the concatenation, in line
  order, of the outputs of the per-line transformation run on each line on its own.
  On the two lines \<open>2\<close> and \<open>3\<close>, the second without newline, the concatenation is \<open>4\<close>,
  \<open>9\<close>, and the program writes \<open>4\<close>, \<open>9\<close>, \<open>9\<close>: the string \<open>s\<close> carried the second line
  into the iteration after it.
\<close>

theorem output_not_per_line:
  "concat (map process_line (input_lines (''2'' @ [newline] @ ''3''))) = [''4'', ''9''] \<and>
   main (''2'' @ [newline] @ ''3'') = Some ([''4'', ''9'', ''9''], 0)"
proof -
  have p: "process_line ''2'' = [''4'']" "process_line ''3'' = [''9'']"
    by (simp_all add: line_eval)
  have i: "input_lines (''2'' @ [newline] @ ''3'') = [''2'', ''3'']"
    by (simp add: newline_def)
  have m: "main (''2'' @ [newline] @ ''3'') = Some ([''4'', ''9'', ''9''], 0)"
    by (simp add: main_eq outputs_def last_line_def terminated_def newline_def p)
  from i p m show ?thesis by simp
qed

subsection \<open>C6: no output after the end of the input\<close>

text \<open>
  Claim C6. For every finite input stream the filter terminates: it processes lines until the
  input stream signals end-of-file and then exits normally with exit code 0, writing no
  further output after the end of the input.
  The program does return, with status 0, on every input (\<open>main_terminates\<close>). On the input
  \<open>7\<close> without newline, the first iteration leaves the stream with \<open>eofbit\<close> set and has
  written \<open>49\<close>; the run then writes \<open>49\<close> once more before it exits.
\<close>

theorem output_after_end_of_input:
  "eofbit (cin (body (initial ''7''))) \<and> cout (body (initial ''7'')) = [''49''] \<and>
   main ''7'' = Some ([''49'', ''49''], 0)"
proof -
  have p: "process_line ''7'' = [''49'']"
    by (simp add: line_eval)
  have b: "body (initial ''7'') =
      \<lparr>cin = \<lparr>buf = [], eofbit = True, failbit = False\<rparr>, str = ''7'', cout = [''49'']\<rparr>"
    by (simp add: body_def initial_def getline_def good_def newline_def p)
  have m: "main ''7'' = Some ([''49'', ''49''], 0)"
    by (simp add: main_eq outputs_def last_line_def terminated_def newline_def p)
  from b m show ?thesis by simp
qed

end
